theory Spec2Isabelle
  imports Complex_Main "HOL-Library.Multiset"
begin

section \<open>Data model of fastqio/fastq.py\<close>

text \<open>
  A text file is the list of its lines as the (possibly decompressing) text stream
  yields them, each line still carrying its terminator. An open file handle is an
  iterator over that list: its state is the list of lines not yet read, and
  \<^verbatim>\<open>next(handle)\<close> either pops the first line or signals StopIteration.
\<close>

type_synonym raw_record = "string \<times> string \<times> string"

record FASTQRecord =
  info :: string
  seq :: string
  quality :: string

text \<open>
  The exceptions that leave a method: a file that cannot be opened, a worker pool of no
  worker, and whatever a compiled transform raises in its task.
\<close>

datatype exn = OSError | ValueError | TransformError string

text \<open>A handle is open at some position of its file, or closed.\<close>

datatype handle = Open "string list" | Closed

record FASTQReader =
  file_path :: string
  thread :: int
  chunk_size :: int
  is_gz :: bool
  reader_file :: "handle option"

type_synonym filesystem = "string \<rightharpoonup> string list"

text \<open>\<^verbatim>\<open>FASTQRecord(*rec)\<close> for a 3-tuple \<^verbatim>\<open>rec\<close>.\<close>

definition FASTQRecord_of :: "raw_record \<Rightarrow> FASTQRecord" where
  "FASTQRecord_of = (\<lambda>(i, s, q). \<lparr>info = i, seq = s, quality = q\<rparr>)"

text \<open>\<^verbatim>\<open>s.rstrip("\n")\<close>: every trailing line feed is removed.\<close>

definition rstrip_nl :: "string \<Rightarrow> string" where
  "rstrip_nl s = rev (dropWhile (\<lambda>c. c = CHR 0x0A) (rev s))"

text \<open>\<^verbatim>\<open>range(0, n, step)\<close> for a positive step.\<close>

definition range_step :: "nat \<Rightarrow> nat \<Rightarrow> nat list" where
  "range_step n step = map (\<lambda>k. k * step) [0..<(n + step - 1) div step]"

section \<open>load\_chunk and the chunk loop\<close>

text \<open>
  \<^verbatim>\<open>load_chunk\<close>: the \<^verbatim>\<open>for _ in range(chunk_size * 4)\<close> loop appends one stripped
  line per round and leaves at the first StopIteration. The result is the list of lines
  together with the handle's new position.
\<close>

fun load_chunk_loop :: "nat \<Rightarrow> string list \<Rightarrow> string list \<Rightarrow> string list \<times> string list" where
  "load_chunk_loop 0 fh lines = (lines, fh)"
| "load_chunk_loop (Suc k) [] lines = (lines, [])"
| "load_chunk_loop (Suc k) (l # fh) lines = load_chunk_loop k fh (lines @ [rstrip_nl l])"

definition load_chunk :: "string list \<Rightarrow> int \<Rightarrow> string list \<times> string list" where
  "load_chunk fh cs = load_chunk_loop (nat (cs * 4)) fh []"

text \<open>\<open>n\<close> successive calls of \<^verbatim>\<open>load_chunk\<close> on one handle.\<close>

fun load_chunks :: "nat \<Rightarrow> string list \<Rightarrow> int \<Rightarrow> string list list" where
  "load_chunks 0 fh cs = []"
| "load_chunks (Suc n) fh cs =
     (case load_chunk fh cs of (lines, fh') \<Rightarrow> lines # load_chunks n fh' cs)"

text \<open>
  The loop shared by \<^verbatim>\<open>count_reads\<close>, \<^verbatim>\<open>trim\<close>, \<^verbatim>\<open>filter_quality\<close> and \<^verbatim>\<open>extract\<close>:
  \<^verbatim>\<open>while True: lines = load_chunk(...); if not lines: break; futures.append(submit(job, ...))\<close>.
  \<open>job\<close> is what the submitted task computes from the chunk's lines; the result is the
  list of futures in submission order and the handle's final position.
\<close>

function chunk_loop :: "int \<Rightarrow> (string list \<Rightarrow> 'a) \<Rightarrow> string list \<Rightarrow> 'a list \<times> string list" where
  "chunk_loop cs job fh =
     (case load_chunk fh cs of
        (lines, fh') \<Rightarrow>
          if lines = [] then ([], fh')
          else (case chunk_loop cs job fh' of (futures, fh'') \<Rightarrow> (job lines # futures, fh'')))"
  by pat_completeness auto
termination
proof (relation "measure (\<lambda>(cs, job, fh). length fh)", goal_cases)
  case 1
  show ?case by simp
next
  case 2
  have "load_chunk_loop k h acc = (acc @ map rstrip_nl (take k h), drop k h)" for k h acc
    by (induction k h acc rule: load_chunk_loop.induct) simp_all
  with 2 show ?case by (auto simp: load_chunk_def)
qed

declare chunk_loop.simps [simp del]


section \<open>Grouping lines into records\<close>

text \<open>
  The grouping loop of \<^verbatim>\<open>trim\<close> and \<^verbatim>\<open>filter_quality\<close>:
  \<^verbatim>\<open>for i in range(0, len(lines), 4): if i + 3 < len(lines): records.append((lines[i], lines[i+1], lines[i+3]))\<close>.
\<close>

definition group_records :: "string list \<Rightarrow> raw_record list" where
  "group_records lines =
     [(lines ! i, lines ! (i + 1), lines ! (i + 3)).
        i \<leftarrow> range_step (length lines) 4, i + 3 < length lines]"

text \<open>
  The grouping loop of \<^verbatim>\<open>extract\<close>:
  \<^verbatim>\<open>for i in range(0, len(lines), 4): if i + 1 < len(lines): records.append(lines[i+1])\<close>.
\<close>

definition group_seqs :: "string list \<Rightarrow> string list" where
  "group_seqs lines =
     [lines ! (i + 1). i \<leftarrow> range_step (length lines) 4, i + 1 < length lines]"

text \<open>
  \<^verbatim>\<open>_record_generator\<close>, drained: each round reads four lines and yields a record; the
  first StopIteration, wherever in the group it strikes, ends the generator.
\<close>

fun record_generator :: "string list \<Rightarrow> FASTQRecord list" where
  "record_generator (l1 # l2 # l3 # l4 # fh) =
     \<lparr>info = rstrip_nl l1, seq = rstrip_nl l2, quality = rstrip_nl l4\<rparr> # record_generator fh"
| "record_generator _ = []"

section \<open>Python slices\<close>

text \<open>
  \<^verbatim>\<open>s[start:end]\<close> with integer bounds and step 1: a negative bound counts from the
  end, and both bounds are clipped to \<open>0 .. len(s)\<close>.
\<close>

definition slice_index :: "int \<Rightarrow> int \<Rightarrow> nat" where
  "slice_index n i = nat (if i < 0 then max (i + n) 0 else min i n)"

definition py_slice :: "'a list \<Rightarrow> int \<Rightarrow> int \<Rightarrow> 'a list" where
  "py_slice s start stop =
     (let a = slice_index (int (length s)) start;
          b = slice_index (int (length s)) stop
      in take (b - a) (drop a s))"

section \<open>Scatter and gather\<close>

text \<open>
  \<^verbatim>\<open>as_completed(futures)\<close> yields every submitted future once, in the order in which
  the futures are found complete. That order is not decided by the program: it is the
  parameter \<open>order\<close>, the list of the futures' submission indices in completion order
  (a permutation of \<open>[0..<length futures]\<close>).
\<close>

definition as_completed :: "nat list \<Rightarrow> 'a list \<Rightarrow> 'a list" where
  "as_completed order futures = map (\<lambda>i. futures ! i) order"

text \<open>
  The gathering loop of \<^verbatim>\<open>trim\<close> and \<^verbatim>\<open>filter_quality\<close>:
  \<^verbatim>\<open>future.result()\<close> returns the task's value or raises the task's exception, which
  leaves the method.
\<close>

fun collect_records :: "(exn + raw_record list) list \<Rightarrow> FASTQRecord list \<Rightarrow> exn + FASTQRecord list" where
  "collect_records [] acc = Inr acc"
| "collect_records (Inl e # futures) acc = Inl e"
| "collect_records (Inr result # futures) acc =
     collect_records futures (acc @ map FASTQRecord_of result)"

section \<open>The reader\<close>

definition is_gzipped :: "string \<Rightarrow> bool" where
  "is_gzipped path = (3 \<le> length path \<and> drop (length path - 3) path = ''.gz'')"

text \<open>
  \<^verbatim>\<open>open_file\<close>: the file system maps a path to the text lines its stream yields
  (after decompression for a \<^verbatim>\<open>.gz\<close> path); a missing path raises.
\<close>

definition open_file :: "filesystem \<Rightarrow> string \<Rightarrow> exn + string list" where
  "open_file fs path = (case fs path of None \<Rightarrow> Inl OSError | Some ls \<Rightarrow> Inr ls)"

definition init :: "string \<Rightarrow> int \<Rightarrow> int \<Rightarrow> FASTQReader" where
  "init path thr cs =
     \<lparr>file_path = path, thread = thr, chunk_size = cs, is_gz = is_gzipped path,
      reader_file = None\<rparr>"

text \<open>
  \<^verbatim>\<open>_reset_file\<close>: an existing handle is closed, then the file is opened again. The
  value \<open>Inr fh\<close> is the fresh handle's content, which the caller goes on to read.
\<close>

definition reset_file :: "filesystem \<Rightarrow> FASTQReader \<Rightarrow> (exn + string list) \<times> FASTQReader" where
  "reset_file fs r =
     (let r1 = (case reader_file r of None \<Rightarrow> r | Some h \<Rightarrow> r\<lparr>reader_file := Some Closed\<rparr>)
      in case open_file fs (file_path r1) of
           Inl e \<Rightarrow> (Inl e, r1)
         | Inr fh \<Rightarrow> (Inr fh, r1\<lparr>reader_file := Some (Open fh)\<rparr>))"

text \<open>
  \<^verbatim>\<open>list(reader)\<close>: \<^verbatim>\<open>__iter__\<close> resets the file and the generator is drained; the
  handle is left at the end of the file.
\<close>

definition iter_reader :: "filesystem \<Rightarrow> FASTQReader \<Rightarrow> (exn + string list) \<times> FASTQReader" where
  "iter_reader fs r = reset_file fs r"

definition iterate :: "filesystem \<Rightarrow> FASTQReader \<Rightarrow> (exn + FASTQRecord list) \<times> FASTQReader" where
  "iterate fs r =
     (case iter_reader fs r of
        (Inl e, r1) \<Rightarrow> (Inl e, r1)
      | (Inr fh, r1) \<Rightarrow> (Inr (record_generator fh), r1\<lparr>reader_file := Some (Open [])\<rparr>))"

text \<open>
  \<^verbatim>\<open>count_reads\<close>. \<^verbatim>\<open>ThreadPoolExecutor(max_workers=n)\<close> raises ValueError for
  \<open>n \<le> 0\<close>.
\<close>

definition count_reads :: "filesystem \<Rightarrow> nat list \<Rightarrow> FASTQReader \<Rightarrow> (exn + int) \<times> FASTQReader" where
  "count_reads fs order r =
     (case reset_file fs r of
        (Inl e, r1) \<Rightarrow> (Inl e, r1)
      | (Inr fh, r1) \<Rightarrow>
          if thread r1 \<le> 0 then (Inl ValueError, r1)
          else
            (case chunk_loop (chunk_size r1) (\<lambda>l. int (length l) div 4) fh of
               (futures, fh') \<Rightarrow>
                 let count = foldl (\<lambda>count result. count + result) 0 (as_completed order futures)
                 in (case reset_file fs (r1\<lparr>reader_file := Some (Open fh')\<rparr>) of
                       (Inl e, r2) \<Rightarrow> (Inl e, r2)
                     | (Inr _, r2) \<Rightarrow> (Inr count, r2))))"

text \<open>
  \<^verbatim>\<open>trim\<close>. The compiled transform \<^verbatim>\<open>trim_records_cython\<close> is a parameter: a pure
  function of the chunk's records and the two lengths that returns the trimmed tuples
  or raises. The two lengths are passed through untouched; they are natural numbers,
  the operation's contract being \<open>five_prime \<ge> 0\<close> and \<open>three_prime \<ge> 0\<close>.
\<close>

definition trim ::
  "(raw_record list \<Rightarrow> nat \<Rightarrow> nat \<Rightarrow> exn + raw_record list) \<Rightarrow> filesystem \<Rightarrow> nat list \<Rightarrow>
   FASTQReader \<Rightarrow> nat \<Rightarrow> nat \<Rightarrow> (exn + FASTQRecord list) \<times> FASTQReader" where
  "trim trim_records fs order r five_prime three_prime =
     (case reset_file fs r of
        (Inl e, r1) \<Rightarrow> (Inl e, r1)
      | (Inr fh, r1) \<Rightarrow>
          if thread r1 \<le> 0 then (Inl ValueError, r1)
          else
            (case chunk_loop (chunk_size r1)
                    (\<lambda>lines. trim_records (group_records lines) five_prime three_prime) fh of
               (futures, fh') \<Rightarrow>
                 (case collect_records (as_completed order futures) [] of
                    Inl e \<Rightarrow> (Inl e, r1\<lparr>reader_file := Some (Open fh')\<rparr>)
                  | Inr trimmed_records \<Rightarrow>
                      (case reset_file fs (r1\<lparr>reader_file := Some (Open fh')\<rparr>) of
                         (Inl e, r2) \<Rightarrow> (Inl e, r2)
                       | (Inr _, r2) \<Rightarrow> (Inr trimmed_records, r2)))))"

text \<open>
  \<^verbatim>\<open>filter_quality\<close>, with \<^verbatim>\<open>filter_quality_cython\<close> as a parameter. The numeric
  threshold is a rational number.
\<close>

definition filter_quality ::
  "(raw_record list \<Rightarrow> rat \<Rightarrow> exn + raw_record list) \<Rightarrow> filesystem \<Rightarrow> nat list \<Rightarrow>
   FASTQReader \<Rightarrow> rat \<Rightarrow> (exn + FASTQRecord list) \<times> FASTQReader" where
  "filter_quality filter_records fs order r threshold =
     (case reset_file fs r of
        (Inl e, r1) \<Rightarrow> (Inl e, r1)
      | (Inr fh, r1) \<Rightarrow>
          if thread r1 \<le> 0 then (Inl ValueError, r1)
          else
            (case chunk_loop (chunk_size r1)
                    (\<lambda>lines. filter_records (group_records lines) threshold) fh of
               (futures, fh') \<Rightarrow>
                 (case collect_records (as_completed order futures) [] of
                    Inl e \<Rightarrow> (Inl e, r1\<lparr>reader_file := Some (Open fh')\<rparr>)
                  | Inr filtered_records \<Rightarrow>
                      (case reset_file fs (r1\<lparr>reader_file := Some (Open fh')\<rparr>) of
                         (Inl e, r2) \<Rightarrow> (Inl e, r2)
                       | (Inr _, r2) \<Rightarrow> (Inr filtered_records, r2)))))"

text \<open>
  \<^verbatim>\<open>extract\<close>. The columnar sink maps a file name to the table written there, a list
  of named columns. The progress dots printed on standard output are left out.
\<close>

type_synonym sink = "string \<rightharpoonup> (string \<times> string list) list"

definition extract_reads ::
  "filesystem \<Rightarrow> sink \<Rightarrow> nat list \<Rightarrow> FASTQReader \<Rightarrow> int \<Rightarrow> int \<Rightarrow> bool \<Rightarrow> string \<Rightarrow>
   (exn + string list option) \<times> FASTQReader \<times> sink" where
  "extract_reads fs snk order r start stop save_parquet parquet_prefix =
     (case reset_file fs r of
        (Inl e, r1) \<Rightarrow> (Inl e, r1, snk)
      | (Inr fh, r1) \<Rightarrow>
          if thread r1 \<le> 0 then (Inl ValueError, r1, snk)
          else
            (case chunk_loop (chunk_size r1)
                    (\<lambda>lines. [py_slice s start stop. s \<leftarrow> group_seqs lines]) fh of
               (futures, fh') \<Rightarrow>
                 let extracted = foldl (\<lambda>extracted result. extracted @ result) []
                                   (as_completed order futures)
                 in (case reset_file fs (r1\<lparr>reader_file := Some (Open fh')\<rparr>) of
                       (Inl e, r2) \<Rightarrow> (Inl e, r2, snk)
                     | (Inr _, r2) \<Rightarrow>
                         if save_parquet
                         then (Inr None, r2,
                               snk(parquet_prefix @ ''.parquet'' \<mapsto> [(''extracted'', extracted)]))
                         else (Inr (Some extracted), r2, snk))))"

section \<open>The compiled transforms\<close>

text \<open>
  Modelled from the spec: \<^verbatim>\<open>trim_records_cython\<close> of \<^verbatim>\<open>fastqio/fastq_cython.pyx\<close>,
  which is not among the sources. Per record, sequence and quality are both the
  substring from index \<open>five_prime\<close> to \<open>len - three_prime\<close> (an end index that would fall
  below the start gives the empty string, never an error), and the header is passed
  through unchanged.
\<close>

definition substring :: "string \<Rightarrow> nat \<Rightarrow> nat \<Rightarrow> string" where
  "substring s a b = take (b - a) (drop a s)"

definition trim_records_cython :: "raw_record list \<Rightarrow> nat \<Rightarrow> nat \<Rightarrow> exn + raw_record list" where
  "trim_records_cython records five_prime three_prime =
     Inr [(i, substring s five_prime (length s - three_prime),
              substring q five_prime (length q - three_prime)). (i, s, q) \<leftarrow> records]"

text \<open>
  Modelled from the spec: \<^verbatim>\<open>filter_quality_cython\<close> of \<^verbatim>\<open>fastqio/fastq_cython.pyx\<close>,
  which is not among the sources. A record is kept when the arithmetic mean of its
  per-character scores \<open>ord(c) - 33\<close> is at least the threshold; a record with an empty
  quality string is excluded; kept records are passed through unchanged.
\<close>

definition phred :: "char \<Rightarrow> int" where
  "phred c = int (of_char c) - 33"

definition average_quality :: "string \<Rightarrow> rat" where
  "average_quality q = of_int (sum_list (map phred q)) / of_nat (length q)"

definition filter_quality_cython :: "raw_record list \<Rightarrow> rat \<Rightarrow> exn + raw_record list" where
  "filter_quality_cython records threshold =
     Inr [(i, s, q). (i, s, q) \<leftarrow> records, q \<noteq> [] \<and> threshold \<le> average_quality q]"


section \<open>Auxiliary definitions\<close>

text \<open>
  The two grouping loops as recursions over blocks of four lines, and the chunks the
  loop reads from a handle. They serve the proofs only.
\<close>


fun group4 :: "'a list \<Rightarrow> ('a \<times> 'a \<times> 'a) list" where
  "group4 (a # b # c # d # rest) = (a, b, d) # group4 rest"
| "group4 _ = []"

fun seqs4 :: "'a list \<Rightarrow> 'a list" where
  "seqs4 (a # b # c # d # rest) = b # seqs4 rest"
| "seqs4 [a, b, c] = [b]"
| "seqs4 [a, b] = [b]"
| "seqs4 _ = []"

definition read_chunks :: "int \<Rightarrow> string list \<Rightarrow> string list list" where
  "read_chunks cs fh = fst (chunk_loop cs (\<lambda>lines. lines) fh)"

text \<open>The per-record step of the modelled \<^verbatim>\<open>trim_records_cython\<close>.\<close>

definition trim_raw :: "nat \<Rightarrow> nat \<Rightarrow> raw_record \<Rightarrow> raw_record" where
  "trim_raw five_prime three_prime = (\<lambda>(i, s, q).
     (i, substring s five_prime (length s - three_prime),
         substring q five_prime (length q - three_prime)))"

section \<open>Concrete inputs\<close>

text \<open>
  The file of the repository's tests (two records), a reader on it with one record
  per chunk as the tests build it, and a file cut off after the sequence line of its
  second record.
\<close>

definition sample :: "string list" where
  "sample =
     [''@read1'' @ [CHR 0x0A], ''ACGTACGTACGT'' @ [CHR 0x0A], ''+'' @ [CHR 0x0A],
      ''IIIIIIIIIIII'' @ [CHR 0x0A],
      ''@read2'' @ [CHR 0x0A], ''TGCAAGCTTGCA'' @ [CHR 0x0A], ''+'' @ [CHR 0x0A],
      ''JJJJJJJJJJJJ'' @ [CHR 0x0A]]"

definition sample6 :: "string list" where
  "sample6 =
     [''@read1'' @ [CHR 0x0A], ''ACGT'' @ [CHR 0x0A], ''+'' @ [CHR 0x0A], ''IIII'' @ [CHR 0x0A],
      ''@read2'' @ [CHR 0x0A], ''TTTT'' @ [CHR 0x0A]]"

definition sample_fs :: filesystem where
  "sample_fs = [''sample.fastq'' \<mapsto> sample, ''cut.fastq'' \<mapsto> sample6]"

definition sample_reader :: FASTQReader where
  "sample_reader = init ''sample.fastq'' 4 1"

definition cut_reader :: FASTQReader where
  "cut_reader = init ''cut.fastq'' 4 1"

section \<open>Grouping and chunking\<close>

lemma load_chunk_loop_eq:
  "load_chunk_loop k fh acc = (acc @ map rstrip_nl (take k fh), drop k fh)"
  by (induction k fh acc rule: load_chunk_loop.induct) simp_all

lemma load_chunk_eq:
  "load_chunk fh cs = (map rstrip_nl (take (nat (cs * 4)) fh), drop (nat (cs * 4)) fh)"
  by (simp add: load_chunk_def load_chunk_loop_eq)

lemma range_step_4:
  "range_step (Suc (Suc (Suc (Suc n)))) 4 = 0 # map (\<lambda>i. Suc (Suc (Suc (Suc i)))) (range_step n 4)"
proof -
  have "(Suc (Suc (Suc (Suc n))) + 4 - 1) div 4 = Suc ((n + 4 - 1) div 4)" by simp
  then have "range_step (Suc (Suc (Suc (Suc n)))) 4 = map (\<lambda>k. k * 4) [0..<Suc ((n + 4 - 1) div 4)]"
    by (simp only: range_step_def)
  also have "\<dots> = 0 # map (\<lambda>k. k * 4) (map Suc [0..<(n + 4 - 1) div 4])"
    by (simp only: map_Suc_upt upt_conv_Cons[of 0] ) simp
  also have "\<dots> = 0 # map (\<lambda>i. Suc (Suc (Suc (Suc i)))) (range_step n 4)"
    by (simp add: range_step_def)
  finally show ?thesis .
qed

lemma group_records_Cons4:
  "group_records (a # b # c # d # rest) = (a, b, d) # group_records rest"
  by (simp add: group_records_def range_step_4 o_def numeral_3_eq_3 cong: if_cong)

lemma group_records_eq: "group_records xs = group4 xs"
  apply (induction xs rule: group4.induct)
  apply (simp_all add: group_records_Cons4)
  apply (simp_all add: group_records_def range_step_def)
  done

lemma group_seqs_Cons4:
  "group_seqs (a # b # c # d # rest) = b # group_seqs rest"
  by (simp add: group_seqs_def range_step_4 o_def cong: if_cong)

lemma group_seqs_eq: "group_seqs xs = seqs4 xs"
  apply (induction xs rule: seqs4.induct)
  apply (simp_all add: group_seqs_Cons4)
  apply (simp_all add: group_seqs_def range_step_def)
  done



lemma dvd4_Suc:
  "\<not> (4::nat) dvd Suc 0" "\<not> (4::nat) dvd Suc (Suc 0)" "\<not> (4::nat) dvd Suc (Suc (Suc 0))"
  "(4::nat) dvd Suc (Suc (Suc (Suc n))) \<longleftrightarrow> 4 dvd n"
  by presburger+

lemma group4_append: "4 dvd length xs \<Longrightarrow> group4 (xs @ ys) = group4 xs @ group4 ys"
  by (induction xs rule: group4.induct) (simp_all add: dvd4_Suc)

lemma seqs4_append: "4 dvd length xs \<Longrightarrow> seqs4 (xs @ ys) = seqs4 xs @ seqs4 ys"
  by (induction xs rule: seqs4.induct) (simp_all add: dvd4_Suc)

lemma length_group4: "length (group4 xs) = length xs div 4"
  by (induction xs rule: group4.induct) simp_all

lemma record_generator_eq:
  "record_generator fh = map FASTQRecord_of (group4 (map rstrip_nl fh))"
  by (induction fh rule: record_generator.induct) (simp_all add: FASTQRecord_of_def)

lemma chunk_loop_unfold:
  "chunk_loop cs job fh =
     (if take (nat (cs * 4)) fh = [] then ([], drop (nat (cs * 4)) fh)
      else (job (map rstrip_nl (take (nat (cs * 4)) fh)) # fst (chunk_loop cs job (drop (nat (cs * 4)) fh)),
            snd (chunk_loop cs job (drop (nat (cs * 4)) fh))))"
  by (subst chunk_loop.simps) (simp add: load_chunk_eq split: prod.splits)

lemma chunk_loop_map: "fst (chunk_loop cs job fh) = map job (read_chunks cs fh)"
  unfolding read_chunks_def
proof (induction cs job fh rule: chunk_loop.induct)
  case (1 cs job fh)
  show ?case
  proof (cases "take (nat (cs * 4)) fh = []")
    case True
    then show ?thesis by (simp add: chunk_loop_unfold[of cs _ fh])
  next
    case False
    then have "fst (chunk_loop cs job (drop (nat (cs * 4)) fh)) =
        map job (fst (chunk_loop cs (\<lambda>lines. lines) (drop (nat (cs * 4)) fh)))"
      using "1.IH"[of "map rstrip_nl (take (nat (cs * 4)) fh)" "drop (nat (cs * 4)) fh"]
      by (simp add: load_chunk_eq)
    with False show ?thesis by (simp add: chunk_loop_unfold[of cs _ fh])
  qed
qed

lemma read_chunks_unfold:
  "read_chunks cs fh =
     (if take (nat (cs * 4)) fh = [] then []
      else map rstrip_nl (take (nat (cs * 4)) fh) # read_chunks cs (drop (nat (cs * 4)) fh))"
  unfolding read_chunks_def by (subst chunk_loop_unfold) simp

lemma read_chunks_induct:
  assumes "1 \<le> cs"
    and "P []"
    and "\<And>fh. fh \<noteq> [] \<Longrightarrow> P (drop (nat (cs * 4)) fh) \<Longrightarrow> P fh"
  shows "P fh"
proof (induction fh rule: length_induct)
  case (1 fh)
  show ?case
  proof (cases "fh = []")
    case True
    with assms(2) show ?thesis by simp
  next
    case False
    with assms(1) have "length (drop (nat (cs * 4)) fh) < length fh" by (cases fh) auto
    with 1 have "P (drop (nat (cs * 4)) fh)" by blast
    with False assms(3) show ?thesis by blast
  qed
qed

lemma chunk_loop_snd:
  assumes cs: "1 \<le> cs"
  shows "snd (chunk_loop cs job fh) = []"
proof (induction fh rule: read_chunks_induct[OF cs])
  case 1
  show ?case by (subst chunk_loop_unfold) simp
next
  case (2 fh)
  from cs 2 show ?case by (subst chunk_loop_unfold) auto
qed

lemma concat_read_chunks:
  assumes cs: "1 \<le> cs"
  shows "concat (read_chunks cs fh) = map rstrip_nl fh"
proof (induction fh rule: read_chunks_induct[OF cs])
  case 1
  show ?case by (subst read_chunks_unfold) simp
next
  case (2 fh)
  have "map rstrip_nl (take (nat (cs * 4)) fh) @ map rstrip_nl (drop (nat (cs * 4)) fh) = map rstrip_nl fh"
    by (simp flip: map_append)
  with cs 2 show ?case by (subst read_chunks_unfold) auto
qed

lemma take_chunk_dvd:
  assumes "1 \<le> cs" "drop (nat (cs * 4)) fh \<noteq> []"
  shows "4 dvd length (map rstrip_nl (take (nat (cs * 4)) fh))"
proof -
  from assms have "nat (cs * 4) < length fh" by simp
  then have "length (map rstrip_nl (take (nat (cs * 4)) fh)) = nat cs * 4"
    using assms(1) by (simp add: nat_mult_distrib)
  then show ?thesis by simp
qed

lemma group4_read_chunks:
  assumes cs: "1 \<le> cs"
  shows "concat (map group4 (read_chunks cs fh)) = group4 (map rstrip_nl fh)"
proof (induction fh rule: read_chunks_induct[OF cs])
  case 1
  show ?case by (subst read_chunks_unfold) simp
next
  case (2 fh)
  let ?k = "nat (cs * 4)"
  have split: "map rstrip_nl fh = map rstrip_nl (take ?k fh) @ map rstrip_nl (drop ?k fh)"
    by (simp flip: map_append)
  have "group4 (map rstrip_nl fh) =
      group4 (map rstrip_nl (take ?k fh)) @ group4 (map rstrip_nl (drop ?k fh))"
  proof (cases "drop ?k fh = []")
    case True
    then show ?thesis by simp
  next
    case False
    with cs have "4 dvd length (map rstrip_nl (take ?k fh))" by (rule take_chunk_dvd)
    then show ?thesis by (subst split) (rule group4_append)
  qed
  with cs 2 show ?case by (subst read_chunks_unfold) auto
qed

lemma seqs4_read_chunks:
  assumes cs: "1 \<le> cs"
  shows "concat (map seqs4 (read_chunks cs fh)) = seqs4 (map rstrip_nl fh)"
proof (induction fh rule: read_chunks_induct[OF cs])
  case 1
  show ?case by (subst read_chunks_unfold) simp
next
  case (2 fh)
  let ?k = "nat (cs * 4)"
  have split: "map rstrip_nl fh = map rstrip_nl (take ?k fh) @ map rstrip_nl (drop ?k fh)"
    by (simp flip: map_append)
  have "seqs4 (map rstrip_nl fh) =
      seqs4 (map rstrip_nl (take ?k fh)) @ seqs4 (map rstrip_nl (drop ?k fh))"
  proof (cases "drop ?k fh = []")
    case True
    then show ?thesis by simp
  next
    case False
    with cs have "4 dvd length (map rstrip_nl (take ?k fh))" by (rule take_chunk_dvd)
    then show ?thesis by (subst split) (rule seqs4_append)
  qed
  with cs 2 show ?case by (subst read_chunks_unfold) auto
qed




lemma length_load_chunks: "length (load_chunks n fh cs) = n"
  by (induction n arbitrary: fh) (simp_all add: load_chunk_eq)

lemma load_chunks_nth:
  "i < n \<Longrightarrow> load_chunks n fh cs ! i =
     map rstrip_nl (take (nat (cs * 4)) (drop (i * nat (cs * 4)) fh))"
proof (induction n arbitrary: fh i)
  case 0
  then show ?case by simp
next
  case (Suc n)
  show ?case
  proof (cases i)
    case 0
    then show ?thesis by (simp add: load_chunk_eq)
  next
    case (Suc i')
    with Suc.prems have "i' < n" by simp
    from Suc.IH[OF this, of "drop (nat (cs * 4)) fh"] Suc show ?thesis
      by (simp add: load_chunk_eq add.commute)
  qed
qed

lemma concat_load_chunks:
  "concat (load_chunks n fh cs) = map rstrip_nl (take (n * nat (cs * 4)) fh)"
proof (induction n arbitrary: fh)
  case 0
  show ?case by simp
next
  case (Suc n)
  have "take (nat (cs * 4) + n * nat (cs * 4)) fh =
      take (nat (cs * 4)) fh @ take (n * nat (cs * 4)) (drop (nat (cs * 4)) fh)"
    by (rule take_add)
  with Suc show ?case by (simp add: load_chunk_eq)
qed

lemma group_load_chunks:
  assumes cs: "1 \<le> cs"
  shows "concat (map group4 (load_chunks n fh cs)) =
     group4 (map rstrip_nl (take (n * nat (cs * 4)) fh))"
proof (induction n arbitrary: fh)
  case 0
  show ?case by simp
next
  case (Suc n)
  let ?k = "nat (cs * 4)"
  have split: "take (?k + n * ?k) fh = take ?k fh @ take (n * ?k) (drop ?k fh)"
    by (rule take_add)
  have "group4 (map rstrip_nl (take ?k fh) @ map rstrip_nl (take (n * ?k) (drop ?k fh))) =
      group4 (map rstrip_nl (take ?k fh)) @ group4 (map rstrip_nl (take (n * ?k) (drop ?k fh)))"
  proof (cases "drop ?k fh = []")
    case True
    then show ?thesis by simp
  next
    case False
    with cs have "4 dvd length (map rstrip_nl (take ?k fh))" by (rule take_chunk_dvd)
    then show ?thesis by (rule group4_append)
  qed
  with Suc[of "drop ?k fh"] show ?case by (simp add: load_chunk_eq split)
qed



section \<open>Gathering and the operations\<close>

lemma foldl_add_sum_list: "foldl (\<lambda>count result. count + result) (a::int) xs = a + sum_list xs"
  by (induction xs arbitrary: a) simp_all

lemma foldl_append_concat: "foldl (\<lambda>extracted result. extracted @ result) acc xss = acc @ concat xss"
  by (induction xss arbitrary: acc) simp_all

lemma mset_as_completed:
  assumes "mset order = mset [0..<length futures]"
  shows "mset (as_completed order futures) = mset futures"
proof -
  have "mset (as_completed order futures) = image_mset (\<lambda>i. futures ! i) (mset order)"
    by (simp add: as_completed_def)
  also have "\<dots> = mset (map (\<lambda>i. futures ! i) [0..<length futures])"
    by (simp add: assms)
  also have "\<dots> = mset futures" by (simp add: map_nth)
  finally show ?thesis .
qed

lemma order_bounded:
  assumes "mset order = mset [0..<n]"
  shows "\<forall>i\<in>set order. i < n"
proof -
  from assms have "set order = set [0..<n]" by (rule mset_eq_setD)
  then show ?thesis by simp
qed

lemma as_completed_identity: "as_completed [0..<length futures] futures = futures"
  by (simp add: as_completed_def map_nth)

lemma collect_records_Inr:
  "collect_records (map Inr batches) acc = Inr (acc @ map FASTQRecord_of (concat batches))"
  by (induction batches arbitrary: acc) simp_all

lemma collect_records_cases:
  "(\<exists>e. Inl e \<in> set futures \<and> collect_records futures acc = Inl e) \<or>
   (\<exists>batches. futures = map Inr batches \<and>
      collect_records futures acc = Inr (acc @ map FASTQRecord_of (concat batches)))"
proof (induction futures acc rule: collect_records.induct)
  case (1 acc)
  then show ?case by simp
next
  case (2 e futures acc)
  then show ?case by auto
next
  case (3 result futures acc)
  from 3 show ?case
  proof
    assume "\<exists>e. Inl e \<in> set futures \<and> collect_records futures (acc @ map FASTQRecord_of result) = Inl e"
    then show ?thesis by auto
  next
    assume "\<exists>batches. futures = map Inr batches \<and>
      collect_records futures (acc @ map FASTQRecord_of result) =
      Inr ((acc @ map FASTQRecord_of result) @ map FASTQRecord_of (concat batches))"
    then obtain batches where b: "futures = map Inr batches"
      "collect_records futures (acc @ map FASTQRecord_of result) =
      Inr ((acc @ map FASTQRecord_of result) @ map FASTQRecord_of (concat batches))" by blast
    then have "Inr result # futures = map Inr (result # batches) \<and>
        collect_records (Inr result # futures) acc =
        Inr (acc @ map FASTQRecord_of (concat (result # batches)))" by simp
    then show ?thesis by (intro disjI2 exI[of _ "result # batches"])
  qed
qed

lemma reset_file_ok:
  "fs (file_path r) = Some c \<Longrightarrow>
     reset_file fs r = (Inr c, r\<lparr>reader_file := Some (Open c)\<rparr>)"
  by (cases "reader_file r") (simp_all add: reset_file_def open_file_def)

lemma reset_file_fail:
  "fs (file_path r) = None \<Longrightarrow>
     reset_file fs r =
       (Inl OSError, case reader_file r of None \<Rightarrow> r | Some h \<Rightarrow> r\<lparr>reader_file := Some Closed\<rparr>)"
  by (cases "reader_file r") (simp_all add: reset_file_def open_file_def)

lemma chunk_loop_cases:
  obtains fh' where "chunk_loop cs job fh = (map job (read_chunks cs fh), fh')"
  using chunk_loop_map[of cs job fh] by (cases "chunk_loop cs job fh") auto

lemma count_reads_eq:
  assumes "fs (file_path r) = Some c" "1 \<le> thread r"
  shows "count_reads fs order r =
     (Inr (sum_list (as_completed order (map (\<lambda>l. int (length l) div 4) (read_chunks (chunk_size r) c)))),
      r\<lparr>reader_file := Some (Open c)\<rparr>)"
proof -
  obtain fh' where "chunk_loop (chunk_size r) (\<lambda>l. int (length l) div 4) c =
      (map (\<lambda>l. int (length l) div 4) (read_chunks (chunk_size r) c), fh')"
    by (rule chunk_loop_cases)
  with assms show ?thesis
    by (simp add: count_reads_def reset_file_ok foldl_add_sum_list)
qed

lemma trim_fst:
  assumes "fs (file_path r) = Some c" "1 \<le> thread r"
  shows "fst (trim tr fs order r fp tp) =
     collect_records (as_completed order
        (map (\<lambda>lines. tr (group_records lines) fp tp) (read_chunks (chunk_size r) c))) []"
proof -
  obtain fh' where "chunk_loop (chunk_size r) (\<lambda>lines. tr (group_records lines) fp tp) c =
      (map (\<lambda>lines. tr (group_records lines) fp tp) (read_chunks (chunk_size r) c), fh')"
    by (rule chunk_loop_cases)
  with assms show ?thesis
    by (simp add: trim_def reset_file_ok split: sum.splits)
qed

lemma trim_snd:
  assumes "fs (file_path r) = Some c" "1 \<le> thread r" "fst (trim tr fs order r fp tp) = Inr out"
  shows "snd (trim tr fs order r fp tp) = r\<lparr>reader_file := Some (Open c)\<rparr>"
proof -
  obtain fh' where "chunk_loop (chunk_size r) (\<lambda>lines. tr (group_records lines) fp tp) c =
      (map (\<lambda>lines. tr (group_records lines) fp tp) (read_chunks (chunk_size r) c), fh')"
    by (rule chunk_loop_cases)
  with assms show ?thesis
    by (simp add: trim_def reset_file_ok split: sum.splits)
qed

lemma filter_quality_fst:
  assumes "fs (file_path r) = Some c" "1 \<le> thread r"
  shows "fst (filter_quality fq fs order r t) =
     collect_records (as_completed order
        (map (\<lambda>lines. fq (group_records lines) t) (read_chunks (chunk_size r) c))) []"
proof -
  obtain fh' where "chunk_loop (chunk_size r) (\<lambda>lines. fq (group_records lines) t) c =
      (map (\<lambda>lines. fq (group_records lines) t) (read_chunks (chunk_size r) c), fh')"
    by (rule chunk_loop_cases)
  with assms show ?thesis
    by (simp add: filter_quality_def reset_file_ok split: sum.splits)
qed

lemma filter_quality_snd:
  assumes "fs (file_path r) = Some c" "1 \<le> thread r" "fst (filter_quality fq fs order r t) = Inr out"
  shows "snd (filter_quality fq fs order r t) = r\<lparr>reader_file := Some (Open c)\<rparr>"
proof -
  obtain fh' where "chunk_loop (chunk_size r) (\<lambda>lines. fq (group_records lines) t) c =
      (map (\<lambda>lines. fq (group_records lines) t) (read_chunks (chunk_size r) c), fh')"
    by (rule chunk_loop_cases)
  with assms show ?thesis
    by (simp add: filter_quality_def reset_file_ok split: sum.splits)
qed

lemma extract_reads_eq:
  assumes "fs (file_path r) = Some c" "1 \<le> thread r"
  shows "extract_reads fs snk order r start stop save prefix =
     (if save
      then (Inr None, r\<lparr>reader_file := Some (Open c)\<rparr>,
            snk(prefix @ ''.parquet'' \<mapsto> [(''extracted'',
              concat (as_completed order
                (map (\<lambda>lines. map (\<lambda>s. py_slice s start stop) (group_seqs lines))
                   (read_chunks (chunk_size r) c))))]))
      else (Inr (Some (concat (as_completed order
                (map (\<lambda>lines. map (\<lambda>s. py_slice s start stop) (group_seqs lines))
                   (read_chunks (chunk_size r) c))))),
            r\<lparr>reader_file := Some (Open c)\<rparr>, snk))"
proof -
  obtain fh' where "chunk_loop (chunk_size r)
        (\<lambda>lines. map (\<lambda>s. py_slice s start stop) (group_seqs lines)) c =
      (map (\<lambda>lines. map (\<lambda>s. py_slice s start stop) (group_seqs lines))
         (read_chunks (chunk_size r) c), fh')"
    by (rule chunk_loop_cases)
  with assms show ?thesis
    by (simp add: extract_reads_def reset_file_ok foldl_append_concat)
qed

lemma iterate_eq:
  assumes "fs (file_path r) = Some c"
  shows "iterate fs r = (Inr (record_generator c), r\<lparr>reader_file := Some (Open [])\<rparr>)"
  using assms by (simp add: iterate_def iter_reader_def reset_file_ok)

lemma sum_list_as_completed:
  fixes xs :: "int list"
  assumes "mset order = mset [0..<length xs]"
  shows "sum_list (as_completed order xs) = sum_list xs"
proof -
  have "sum_list (as_completed order xs) = sum_mset (mset (as_completed order xs))"
    by (simp add: sum_mset_sum_list)
  also have "\<dots> = sum_mset (mset xs)" by (simp add: mset_as_completed[OF assms])
  finally show ?thesis by (simp add: sum_mset_sum_list)
qed

lemma sum_counts_group4:
  "sum_list (map (\<lambda>l. int (length l) div 4) xs) = int (length (concat (map group4 xs)))"
  by (induction xs) (simp_all add: length_group4 zdiv_int)

lemma sum_read_chunks:
  assumes cs: "1 \<le> cs"
  shows "sum_list (map (\<lambda>l. int (length l) div 4) (read_chunks cs c)) = int (length c div 4)"
  by (simp add: sum_counts_group4 group4_read_chunks[OF cs] length_group4)

lemma mset_concat_as_completed:
  assumes "mset order = mset [0..<length batches]"
  shows "mset (concat (as_completed order batches)) = mset (concat batches)"
proof -
  have "mset (concat (as_completed order batches)) =
      sum_mset (image_mset mset (mset (as_completed order batches)))"
    by (simp add: mset_concat sum_mset_sum_list[symmetric])
  also have "\<dots> = sum_mset (image_mset mset (mset batches))"
    by (simp add: mset_as_completed[OF assms])
  also have "\<dots> = mset (concat batches)"
    by (simp add: mset_concat sum_mset_sum_list[symmetric])
  finally show ?thesis .
qed

lemma collect_total:
  assumes "\<forall>i\<in>set order. i < length chunks"
  shows "collect_records (as_completed order (map (\<lambda>l. Inr (g l)) chunks)) [] =
     Inr (map FASTQRecord_of (concat (as_completed order (map g chunks))))"
proof -
  have h: "as_completed order (map (\<lambda>l. Inr (g l)) chunks) =
      map Inr (as_completed order (map g chunks))"
    using assms by (simp add: as_completed_def)
  show ?thesis by (simp only: h collect_records_Inr append_Nil)
qed

lemma read_chunks_nonpos: "cs < 1 \<Longrightarrow> read_chunks cs fh = []"
  by (subst read_chunks_unfold) simp

lemma trim_records_cython_map:
  "trim_records_cython records five_prime three_prime =
     Inr (map (trim_raw five_prime three_prime) records)"
  by (induction records) (auto simp: trim_records_cython_def trim_raw_def)

lemma trim_spec_result:
  assumes "fs (file_path r) = Some c" "1 \<le> thread r"
    and "mset order = mset [0..<length (read_chunks (chunk_size r) c)]"
  shows "fst (trim trim_records_cython fs order r five_prime three_prime) =
     Inr (map FASTQRecord_of (concat (as_completed order
        (map (\<lambda>l. map (trim_raw five_prime three_prime) (group4 l))
           (read_chunks (chunk_size r) c)))))"
proof -
  from assms(3) have "\<forall>i\<in>set order. i < length (read_chunks (chunk_size r) c)"
    by (rule order_bounded)
  then show ?thesis
    using assms(1,2)
    by (simp add: trim_fst trim_records_cython_map group_records_eq collect_total)
qed

lemma mset_trim_spec:
  assumes "fs (file_path r) = Some c" "1 \<le> thread r" "1 \<le> chunk_size r"
    and "mset order = mset [0..<length (read_chunks (chunk_size r) c)]"
  shows "\<exists>out. fst (trim trim_records_cython fs order r five_prime three_prime) = Inr out \<and>
     mset out = mset (map (FASTQRecord_of \<circ> trim_raw five_prime three_prime)
                   (group4 (map rstrip_nl c)))"
proof -
  let ?B = "map (\<lambda>l. map (trim_raw five_prime three_prime) (group4 l))
              (read_chunks (chunk_size r) c)"
  from assms(4) have "mset order = mset [0..<length ?B]" by simp
  then have "mset (concat (as_completed order ?B)) = mset (concat ?B)"
    by (rule mset_concat_as_completed)
  moreover have "concat ?B = map (trim_raw five_prime three_prime)
      (concat (map group4 (read_chunks (chunk_size r) c)))"
    by (simp add: map_concat o_def)
  ultimately have "mset (concat (as_completed order ?B)) =
      mset (map (trim_raw five_prime three_prime) (group4 (map rstrip_nl c)))"
    by (simp add: group4_read_chunks[OF assms(3)])
  then have "mset (map FASTQRecord_of (concat (as_completed order ?B))) =
      mset (map (FASTQRecord_of \<circ> trim_raw five_prime three_prime) (group4 (map rstrip_nl c)))"
    by (metis (no_types) mset_map map_map)
  with trim_spec_result[where fs=fs and r=r, OF assms(1,2,4)] show ?thesis by simp
qed

lemma length_substring: "length (substring s a b) = min b (length s) - a"
  by (auto simp: substring_def min_def)

lemma substring_nth: "k < min b (length s) - a \<Longrightarrow> substring s a b ! k = s ! (a + k)"
  by (simp add: substring_def)

lemma reset_file_eq:
  "reset_file fs r =
     (case fs (file_path r) of
        None \<Rightarrow> (Inl OSError,
                 case reader_file r of None \<Rightarrow> r | Some h \<Rightarrow> r\<lparr>reader_file := Some Closed\<rparr>)
      | Some c \<Rightarrow> (Inr c, r\<lparr>reader_file := Some (Open c)\<rparr>))"
  by (cases "reader_file r") (simp_all add: reset_file_def open_file_def split: option.splits)

lemma reset_file_frame: "\<exists>h. snd (reset_file fs r) = r\<lparr>reader_file := h\<rparr>"
proof (cases "fs (file_path r)")
  case None
  show ?thesis
  proof (cases "reader_file r")
    case None
    with \<open>fs (file_path r) = None\<close> have "snd (reset_file fs r) = r\<lparr>reader_file := None\<rparr>"
      by (simp add: reset_file_eq)
    then show ?thesis ..
  next
    case (Some a)
    with \<open>fs (file_path r) = None\<close> have "snd (reset_file fs r) = r\<lparr>reader_file := Some Closed\<rparr>"
      by (simp add: reset_file_eq)
    then show ?thesis ..
  qed
next
  case (Some c)
  then have "snd (reset_file fs r) = r\<lparr>reader_file := Some (Open c)\<rparr>"
    by (simp add: reset_file_eq)
  then show ?thesis ..
qed

text \<open>Each operation: the result does not depend on the handle found on entry.\<close>

lemma iterate_entry: "fst (iterate fs (r\<lparr>reader_file := h\<rparr>)) = fst (iterate fs r)"
  by (simp add: iterate_def iter_reader_def reset_file_eq split: option.splits)

lemma count_reads_entry:
  "fst (count_reads fs order (r\<lparr>reader_file := h\<rparr>)) = fst (count_reads fs order r)"
  by (simp add: count_reads_def reset_file_eq split: option.splits)

lemma trim_entry:
  "fst (trim tr fs order (r\<lparr>reader_file := h\<rparr>) a b) = fst (trim tr fs order r a b)"
  by (simp add: trim_def reset_file_eq split: option.splits)

lemma filter_quality_entry:
  "fst (filter_quality fq fs order (r\<lparr>reader_file := h\<rparr>) t) = fst (filter_quality fq fs order r t)"
  by (simp add: filter_quality_def reset_file_eq split: option.splits)

lemma extract_reads_entry:
  "fst (extract_reads fs snk' order (r\<lparr>reader_file := h\<rparr>) start stop save prefix) =
   fst (extract_reads fs snk order r start stop save prefix)"
  by (simp add: extract_reads_def reset_file_eq Let_def split: option.splits prod.splits)

text \<open>Each operation changes no field of the reader but the handle.\<close>

lemma failed_reset_frame:
  "(fs::filesystem) (file_path (r::FASTQReader)) = None \<Longrightarrow>
     \<exists>h. (case reader_file r of None \<Rightarrow> r | Some h \<Rightarrow> r\<lparr>reader_file := Some Closed\<rparr>) =
          r\<lparr>reader_file := h\<rparr>"
  using reset_file_frame[of fs r] by (simp add: reset_file_eq)

lemma iterate_frame: "\<exists>h. snd (iterate fs r) = r\<lparr>reader_file := h\<rparr>"
proof (cases "fs (file_path r)")
  case None
  with failed_reset_frame[of fs r] show ?thesis
    by (simp add: iterate_def iter_reader_def reset_file_eq)
next
  case (Some c)
  then have "snd (iterate fs r) = r\<lparr>reader_file := Some (Open [])\<rparr>"
    by (simp add: iterate_eq)
  then show ?thesis ..
qed

lemma count_reads_frame: "\<exists>h. snd (count_reads fs order r) = r\<lparr>reader_file := h\<rparr>"
proof (cases "fs (file_path r)")
  case None
  with failed_reset_frame[of fs r] show ?thesis
    by (simp add: count_reads_def reset_file_eq)
next
  case (Some c)
  show ?thesis
  proof (cases "1 \<le> thread r")
    case True
    with Some have "snd (count_reads fs order r) = r\<lparr>reader_file := Some (Open c)\<rparr>"
      by (simp add: count_reads_eq)
    then show ?thesis ..
  next
    case False
    with Some have "snd (count_reads fs order r) = r\<lparr>reader_file := Some (Open c)\<rparr>"
      by (simp add: count_reads_def reset_file_eq)
    then show ?thesis ..
  qed
qed

lemma trim_frame: "\<exists>h. snd (trim tr fs order r a b) = r\<lparr>reader_file := h\<rparr>"
proof (cases "fs (file_path r)")
  case None
  with failed_reset_frame[of fs r] show ?thesis
    by (simp add: trim_def reset_file_eq)
next
  case (Some c)
  show ?thesis
  proof (cases "1 \<le> thread r")
    case True
    obtain fh' where cl: "chunk_loop (chunk_size r) (\<lambda>lines. tr (group_records lines) a b) c =
        (map (\<lambda>lines. tr (group_records lines) a b) (read_chunks (chunk_size r) c), fh')"
      by (rule chunk_loop_cases)
    show ?thesis
    proof (cases "collect_records (as_completed order
        (map (\<lambda>lines. tr (group_records lines) a b) (read_chunks (chunk_size r) c))) []")
      case (Inl e)
      with Some True cl have "snd (trim tr fs order r a b) = r\<lparr>reader_file := Some (Open fh')\<rparr>"
        by (simp add: trim_def reset_file_eq)
      then show ?thesis ..
    next
      case (Inr out)
      with Some True cl have "snd (trim tr fs order r a b) = r\<lparr>reader_file := Some (Open c)\<rparr>"
        by (simp add: trim_def reset_file_eq)
      then show ?thesis ..
    qed
  next
    case False
    with Some have "snd (trim tr fs order r a b) = r\<lparr>reader_file := Some (Open c)\<rparr>"
      by (simp add: trim_def reset_file_eq)
    then show ?thesis ..
  qed
qed

lemma filter_quality_frame: "\<exists>h. snd (filter_quality fq fs order r t) = r\<lparr>reader_file := h\<rparr>"
proof (cases "fs (file_path r)")
  case None
  with failed_reset_frame[of fs r] show ?thesis
    by (simp add: filter_quality_def reset_file_eq)
next
  case (Some c)
  show ?thesis
  proof (cases "1 \<le> thread r")
    case True
    obtain fh' where cl: "chunk_loop (chunk_size r) (\<lambda>lines. fq (group_records lines) t) c =
        (map (\<lambda>lines. fq (group_records lines) t) (read_chunks (chunk_size r) c), fh')"
      by (rule chunk_loop_cases)
    show ?thesis
    proof (cases "collect_records (as_completed order
        (map (\<lambda>lines. fq (group_records lines) t) (read_chunks (chunk_size r) c))) []")
      case (Inl e)
      with Some True cl have "snd (filter_quality fq fs order r t) = r\<lparr>reader_file := Some (Open fh')\<rparr>"
        by (simp add: filter_quality_def reset_file_eq)
      then show ?thesis ..
    next
      case (Inr out)
      with Some True cl have "snd (filter_quality fq fs order r t) = r\<lparr>reader_file := Some (Open c)\<rparr>"
        by (simp add: filter_quality_def reset_file_eq)
      then show ?thesis ..
    qed
  next
    case False
    with Some have "snd (filter_quality fq fs order r t) = r\<lparr>reader_file := Some (Open c)\<rparr>"
      by (simp add: filter_quality_def reset_file_eq)
    then show ?thesis ..
  qed
qed

lemma extract_reads_frame:
  "\<exists>h. fst (snd (extract_reads fs snk order r start stop save prefix)) = r\<lparr>reader_file := h\<rparr>"
proof (cases "fs (file_path r)")
  case None
  with failed_reset_frame[of fs r] show ?thesis
    by (simp add: extract_reads_def reset_file_eq)
next
  case (Some c)
  show ?thesis
  proof (cases "1 \<le> thread r")
    case True
    with Some have "fst (snd (extract_reads fs snk order r start stop save prefix)) =
        r\<lparr>reader_file := Some (Open c)\<rparr>"
      by (simp add: extract_reads_eq)
    then show ?thesis ..
  next
    case False
    with Some have "fst (snd (extract_reads fs snk order r start stop save prefix)) =
        r\<lparr>reader_file := Some (Open c)\<rparr>"
      by (simp add: extract_reads_def reset_file_eq)
    then show ?thesis ..
  qed
qed

text \<open>Each bulk operation that returns has reopened the file.\<close>

lemma count_reads_restores:
  "fst (count_reads fs order r) = Inr v \<Longrightarrow>
     \<exists>c. fs (file_path r) = Some c \<and> reader_file (snd (count_reads fs order r)) = Some (Open c)"
  by (cases "fs (file_path r)"; cases "1 \<le> thread r")
     (simp_all add: count_reads_eq, simp_all add: count_reads_def reset_file_eq)

lemma trim_restores:
  assumes "fst (trim tr fs order r a b) = Inr v"
  shows "\<exists>c. fs (file_path r) = Some c \<and> reader_file (snd (trim tr fs order r a b)) = Some (Open c)"
proof (cases "fs (file_path r)")
  case None
  with assms show ?thesis by (simp add: trim_def reset_file_eq)
next
  case (Some c)
  show ?thesis
  proof (cases "1 \<le> thread r")
    case True
    from trim_snd[where fs=fs and r=r, OF Some True assms] Some show ?thesis by simp
  next
    case False
    with Some assms show ?thesis by (simp add: trim_def reset_file_eq)
  qed
qed

lemma filter_quality_restores:
  assumes "fst (filter_quality fq fs order r t) = Inr v"
  shows "\<exists>c. fs (file_path r) = Some c \<and>
     reader_file (snd (filter_quality fq fs order r t)) = Some (Open c)"
proof (cases "fs (file_path r)")
  case None
  with assms show ?thesis by (simp add: filter_quality_def reset_file_eq)
next
  case (Some c)
  show ?thesis
  proof (cases "1 \<le> thread r")
    case True
    from filter_quality_snd[where fs=fs and r=r, OF Some True assms] Some show ?thesis by simp
  next
    case False
    with Some assms show ?thesis by (simp add: filter_quality_def reset_file_eq)
  qed
qed

lemma extract_reads_restores:
  "fst (extract_reads fs snk order r start stop save prefix) = Inr v \<Longrightarrow>
     \<exists>c. fs (file_path r) = Some c \<and>
       reader_file (fst (snd (extract_reads fs snk order r start stop save prefix))) = Some (Open c)"
  by (cases "fs (file_path r)"; cases "1 \<le> thread r")
     (simp_all add: extract_reads_eq, simp_all add: extract_reads_def reset_file_eq)

lemma iterate_end_of_file:
  "fst (iterate fs r) = Inr v \<Longrightarrow> reader_file (snd (iterate fs r)) = Some (Open [])"
  by (cases "fs (file_path r)") (simp_all add: iterate_eq, simp add: iterate_def iter_reader_def reset_file_eq)

lemma iter_reader_start:
  "fst (iter_reader fs r) = Inr c \<Longrightarrow>
     fs (file_path r) = Some c \<and> reader_file (snd (iter_reader fs r)) = Some (Open c)"
  by (cases "fs (file_path r)") (simp_all add: iter_reader_def reset_file_eq)

subsection \<open>What holds of the gathered result\<close>

text \<open>Completion in submission order gives the result of one sequential pass.\<close>

lemma extract_reads_in_order:
  assumes "fs (file_path r) = Some c" "1 \<le> thread r" "1 \<le> chunk_size r"
  shows "fst (extract_reads fs snk [0..<length (read_chunks (chunk_size r) c)] r start stop False prefix) =
     Inr (Some (map (\<lambda>s. py_slice s start stop) (group_seqs (map rstrip_nl c))))"
proof -
  let ?B = "map (\<lambda>lines. map (\<lambda>s. py_slice s start stop) (group_seqs lines))
              (read_chunks (chunk_size r) c)"
  have "as_completed [0..<length (read_chunks (chunk_size r) c)] ?B = ?B"
    using as_completed_identity[of ?B] by simp
  moreover have "concat ?B = map (\<lambda>s. py_slice s start stop)
      (concat (map seqs4 (read_chunks (chunk_size r) c)))"
    by (simp add: map_concat o_def group_seqs_eq)
  ultimately show ?thesis using assms
    by (simp add: extract_reads_eq seqs4_read_chunks group_seqs_eq)
qed

lemma seqs4_complete: "4 dvd length xs \<Longrightarrow> seqs4 xs = map (\<lambda>(i, s, q). s) (group4 xs)"
  by (induction xs rule: group4.induct) (simp_all add: dvd4_Suc)

lemma trim_in_order:
  assumes "fs (file_path r) = Some c" "1 \<le> thread r" "1 \<le> chunk_size r"
  shows "fst (trim trim_records_cython fs [0..<length (read_chunks (chunk_size r) c)] r a b) =
     Inr (map (FASTQRecord_of \<circ> trim_raw a b) (group_records (map rstrip_nl c)))"
proof -
  let ?B = "map (\<lambda>l. map (trim_raw a b) (group4 l)) (read_chunks (chunk_size r) c)"
  have "as_completed [0..<length (read_chunks (chunk_size r) c)] ?B = ?B"
    using as_completed_identity[of ?B] by simp
  moreover have "concat ?B = map (trim_raw a b) (concat (map group4 (read_chunks (chunk_size r) c)))"
    by (simp add: map_concat o_def)
  ultimately show ?thesis
    using trim_spec_result[where fs=fs and r=r, OF assms(1,2) refl, of a b] assms(3)
    by (simp add: group4_read_chunks group_records_eq)
qed

lemma filter_quality_cython_filter:
  "filter_quality_cython records t =
     Inr (filter (\<lambda>(i, s, q). q \<noteq> [] \<and> t \<le> average_quality q) records)"
  by (induction records) (auto simp: filter_quality_cython_def split: if_splits)

lemma filter_spec_result:
  assumes "fs (file_path r) = Some c" "1 \<le> thread r"
    and "mset order = mset [0..<length (read_chunks (chunk_size r) c)]"
  shows "fst (filter_quality filter_quality_cython fs order r t) =
     Inr (map FASTQRecord_of (concat (as_completed order
        (map (\<lambda>l. filter (\<lambda>(i, s, q). q \<noteq> [] \<and> t \<le> average_quality q) (group4 l))
           (read_chunks (chunk_size r) c)))))"
proof -
  from assms(3) have "\<forall>i\<in>set order. i < length (read_chunks (chunk_size r) c)"
    by (rule order_bounded)
  then show ?thesis
    using assms(1,2)
    by (simp add: filter_quality_fst filter_quality_cython_filter group_records_eq collect_total)
qed

lemma filter_quality_in_order:
  assumes "fs (file_path r) = Some c" "1 \<le> thread r" "1 \<le> chunk_size r"
  shows "fst (filter_quality filter_quality_cython fs [0..<length (read_chunks (chunk_size r) c)] r t) =
     Inr (filter (\<lambda>x. quality x \<noteq> [] \<and> t \<le> average_quality (quality x)) (record_generator c))"
proof -
  let ?P = "\<lambda>(i, s, q). q \<noteq> [] \<and> t \<le> average_quality q"
  let ?B = "map (\<lambda>l. filter ?P (group4 l)) (read_chunks (chunk_size r) c)"
  have "as_completed [0..<length (read_chunks (chunk_size r) c)] ?B = ?B"
    using as_completed_identity[of ?B] by simp
  moreover have "concat ?B = filter ?P (concat (map group4 (read_chunks (chunk_size r) c)))"
    by (simp add: filter_concat o_def)
  moreover have "map FASTQRecord_of (filter ?P xs) =
      filter (\<lambda>x. quality x \<noteq> [] \<and> t \<le> average_quality (quality x)) (map FASTQRecord_of xs)" for xs
    by (induction xs) (auto simp: FASTQRecord_of_def)
  ultimately show ?thesis
    using filter_spec_result[where fs=fs and r=r, OF assms(1,2) refl, of t] assms(3)
    by (simp add: group4_read_chunks record_generator_eq)
qed

lemma filter_quality_any_order:
  assumes "fs (file_path r) = Some c" "1 \<le> thread r" "1 \<le> chunk_size r"
    and "mset order = mset [0..<length (read_chunks (chunk_size r) c)]"
  shows "\<exists>out. fst (filter_quality filter_quality_cython fs order r t) = Inr out \<and>
     mset out = filter_mset (\<lambda>x. quality x \<noteq> [] \<and> t \<le> average_quality (quality x))
                  (mset (record_generator c))"
proof -
  let ?P = "\<lambda>(i, s, q). q \<noteq> [] \<and> t \<le> average_quality q"
  let ?B = "map (\<lambda>l. filter ?P (group4 l)) (read_chunks (chunk_size r) c)"
  from assms(4) have "mset order = mset [0..<length ?B]" by simp
  then have "mset (concat (as_completed order ?B)) = mset (concat ?B)"
    by (rule mset_concat_as_completed)
  moreover have "concat ?B = filter ?P (concat (map group4 (read_chunks (chunk_size r) c)))"
    by (simp add: filter_concat o_def)
  moreover have "map FASTQRecord_of (filter ?P xs) =
      filter (\<lambda>x. quality x \<noteq> [] \<and> t \<le> average_quality (quality x)) (map FASTQRecord_of xs)" for xs
    by (induction xs) (auto simp: FASTQRecord_of_def)
  ultimately have "mset (map FASTQRecord_of (concat (as_completed order ?B))) =
      mset (filter (\<lambda>x. quality x \<noteq> [] \<and> t \<le> average_quality (quality x)) (record_generator c))"
    using assms(3)
    by (metis (no_types, lifting) group4_read_chunks record_generator_eq mset_map)
  with filter_spec_result[where fs=fs and r=r, OF assms(1,2,4), of t] show ?thesis
    by simp
qed

text \<open>A failing task fails the whole call; otherwise every batch is in the result.\<close>

lemma gather_all_or_nothing:
  assumes "mset order = mset [0..<length futures]"
  shows "(\<exists>e. Inl e \<in> set futures \<and> collect_records (as_completed order futures) [] = Inl e) \<or>
     (\<exists>batches. futures = map Inr batches \<and>
        collect_records (as_completed order futures) [] =
          Inr (map FASTQRecord_of (concat (as_completed order batches))))"
proof -
  from assms have set: "set (as_completed order futures) = set futures"
    using mset_as_completed mset_eq_setD by blast
  from collect_records_cases[of "as_completed order futures" "[]"] show ?thesis
  proof
    assume "\<exists>e. Inl e \<in> set (as_completed order futures) \<and>
        collect_records (as_completed order futures) [] = Inl e"
    with set show ?thesis by auto
  next
    assume "\<exists>batches. as_completed order futures = map Inr batches \<and>
        collect_records (as_completed order futures) [] =
          Inr ([] @ map FASTQRecord_of (concat batches))"
    then obtain bs where bs: "as_completed order futures = map Inr bs"
      "collect_records (as_completed order futures) [] = Inr (map FASTQRecord_of (concat bs))"
      by auto
    from bs(1) set have "\<forall>f\<in>set futures. \<exists>b. f = Inr b" by auto
    then have "\<exists>batches. futures = map Inr batches"
    proof (induction futures)
      case Nil
      then show ?case by simp
    next
      case (Cons f futures)
      then obtain b batches where "f = Inr b" "futures = map Inr batches" by auto
      then have "f # futures = map Inr (b # batches)" by simp
      then show ?case ..
    qed
    then obtain batches where b: "futures = map Inr batches" by blast
    from assms have "\<forall>i\<in>set order. i < length batches"
      using order_bounded[of order "length futures"] b by simp
    then have "as_completed order futures = map Inr (as_completed order batches)"
      by (simp add: b as_completed_def)
    with bs(1) have "bs = as_completed order batches"
      by simp
    with bs(2) b show ?thesis by blast
  qed
qed

lemma trim_all_or_nothing:
  assumes "fs (file_path r) = Some c" "1 \<le> thread r"
    and "mset order = mset [0..<length (read_chunks (chunk_size r) c)]"
  shows "(\<exists>e. Inl e \<in> set (map (\<lambda>lines. tr (group_records lines) a b) (read_chunks (chunk_size r) c))
            \<and> fst (trim tr fs order r a b) = Inl e) \<or>
     (\<exists>batches. map (\<lambda>lines. tr (group_records lines) a b) (read_chunks (chunk_size r) c) =
            map Inr batches
        \<and> fst (trim tr fs order r a b) =
            Inr (map FASTQRecord_of (concat (as_completed order batches))))"
proof -
  let ?F = "map (\<lambda>lines. tr (group_records lines) a b) (read_chunks (chunk_size r) c)"
  from assms(3) have "mset order = mset [0..<length ?F]" by simp
  from gather_all_or_nothing[OF this] show ?thesis
    using assms(1,2) by (simp only: trim_fst[where fs=fs and r=r and c=c])
qed

lemma filter_quality_all_or_nothing:
  assumes "fs (file_path r) = Some c" "1 \<le> thread r"
    and "mset order = mset [0..<length (read_chunks (chunk_size r) c)]"
  shows "(\<exists>e. Inl e \<in> set (map (\<lambda>lines. fq (group_records lines) t) (read_chunks (chunk_size r) c))
            \<and> fst (filter_quality fq fs order r t) = Inl e) \<or>
     (\<exists>batches. map (\<lambda>lines. fq (group_records lines) t) (read_chunks (chunk_size r) c) =
            map Inr batches
        \<and> fst (filter_quality fq fs order r t) =
            Inr (map FASTQRecord_of (concat (as_completed order batches))))"
proof -
  let ?F = "map (\<lambda>lines. fq (group_records lines) t) (read_chunks (chunk_size r) c)"
  from assms(3) have "mset order = mset [0..<length ?F]" by simp
  from gather_all_or_nothing[OF this] show ?thesis
    using assms(1,2) by (simp only: filter_quality_fst[where fs=fs and r=r and c=c])
qed

text \<open>Python's slice, clipped.\<close>

lemma py_slice_inside:
  "0 \<le> start \<Longrightarrow> start \<le> stop \<Longrightarrow> stop \<le> int (length s) \<Longrightarrow>
     py_slice s start stop = take (nat stop - nat start) (drop (nat start) s)"
  by (simp add: py_slice_def slice_index_def Let_def)

lemma py_slice_stop_beyond:
  "int (length s) \<le> stop \<Longrightarrow> py_slice s start stop = py_slice s start (int (length s))"
  by (simp add: py_slice_def slice_index_def Let_def)

lemma py_slice_start_beyond: "int (length s) \<le> start \<Longrightarrow> py_slice s start stop = []"
  by (simp add: py_slice_def slice_index_def Let_def)

lemma py_slice_negative:
  "start < 0 \<Longrightarrow> py_slice s start stop = py_slice s (max 0 (start + int (length s))) stop"
  "stop < 0 \<Longrightarrow> py_slice s start stop = py_slice s start (max 0 (stop + int (length s)))"
  by (auto simp: py_slice_def slice_index_def Let_def max_def min_def)

text \<open>A trailing group of fewer than four lines yields no record.\<close>

lemma group_seqs_tail:
  assumes "4 dvd length fh" "length t < 4"
  shows "group_seqs (fh @ t) = group_seqs fh @ (if 2 \<le> length t then [t ! 1] else [])"
proof -
  have "seqs4 t' = (if 2 \<le> length t' then [t' ! 1] else [])" if "length t' < 4" for t' :: "string list"
    using that by (induction t' rule: seqs4.induct) simp_all
  with assms show ?thesis by (simp add: group_seqs_eq seqs4_append)
qed

lemma record_generator_drops_tail:
  "4 dvd length fh \<Longrightarrow> length t < 4 \<Longrightarrow> record_generator (fh @ t) = record_generator fh"
proof -
  assume a: "4 dvd length fh" "length t < 4"
  have "group4 t' = []" if "length t' < 4" for t' :: "string list"
    using that by (induction t' rule: group4.induct) simp_all
  with a(2) have "group4 (map rstrip_nl t) = []" by simp
  with a(1) show ?thesis by (simp add: record_generator_eq group4_append)
qed

section \<open>The claims\<close>

subsection \<open>Order of the gathered result\<close>

text \<open>
  C1 fails on the code. The gathering loops append the batches in the order in which
  \<^verbatim>\<open>as_completed\<close> yields the futures, and nothing sorts them by chunk index. On the
  tests' file with one record per chunk, \<^verbatim>\<open>extract(2, 6)\<close> returns the substrings in
  file order when the first chunk's task is yielded first, and in reverse order when
  the second one is.
\<close>

theorem extract_completion_order:
  "mset [1, 0] = mset [0..<length (read_chunks (chunk_size sample_reader) sample)]
   \<and> fst (extract_reads sample_fs Map.empty [0, 1] sample_reader 2 6 False ''extracted'') =
       Inr (Some [''GTAC'', ''CAAG''])
   \<and> fst (extract_reads sample_fs Map.empty [1, 0] sample_reader 2 6 False ''extracted'') =
       Inr (Some [''CAAG'', ''GTAC''])"
  by code_simp

subsection \<open>A file cut off inside a record\<close>

text \<open>
  C2 fails on the code for \<^verbatim>\<open>extract\<close>. Its grouping loop asks for \<open>i + 1 < len(lines)\<close>
  where \<^verbatim>\<open>trim\<close> and \<^verbatim>\<open>filter_quality\<close> ask for \<open>i + 3 < len(lines)\<close>. On a file of six
  lines (one record and the first two lines of a second), iteration, counting and
  trimming see one record, and \<^verbatim>\<open>extract(0, 4)\<close> returns two substrings, the second
  one taken from the incomplete group.
\<close>

theorem extract_keeps_cut_record:
  "sample_fs (file_path cut_reader) = Some sample6
   \<and> length sample6 = 6
   \<and> fst (iterate sample_fs cut_reader) =
       Inr [\<lparr>info = ''@read1'', seq = ''ACGT'', quality = ''IIII''\<rparr>]
   \<and> fst (count_reads sample_fs [0, 1] cut_reader) = Inr 1
   \<and> fst (trim trim_records_cython sample_fs [0, 1] cut_reader 0 0) =
       Inr [\<lparr>info = ''@read1'', seq = ''ACGT'', quality = ''IIII''\<rparr>]
   \<and> fst (extract_reads sample_fs Map.empty [0, 1] cut_reader 0 4 False ''extracted'') =
       Inr (Some [''ACGT'', ''TTTT''])"
  by code_simp

subsection \<open>Counting\<close>

text \<open>
  C3. On an existing file, with at least one worker and a chunk size of at least one,
  and for every order in which the counting tasks complete, \<^verbatim>\<open>count_reads\<close> returns
  the number of records that sequential iteration yields for the same file, which is
  the number of complete 4-line groups, \<open>len(lines) // 4\<close>.
\<close>

theorem count_reads_iterate:
  assumes "fs (file_path r) = Some c"
    and "1 \<le> thread r"
    and "1 \<le> chunk_size r"
    and "mset order = mset [0..<length (read_chunks (chunk_size r) c)]"
  shows "fst (iterate fs r) = Inr (record_generator c)
       \<and> fst (count_reads fs order r) = Inr (int (length (record_generator c)))
       \<and> length (record_generator c) = length c div 4"
proof -
  let ?counts = "map (\<lambda>l. int (length l) div 4) (read_chunks (chunk_size r) c)"
  from assms(4) have "mset order = mset [0..<length ?counts]" by simp
  then have "sum_list (as_completed order ?counts) = sum_list ?counts"
    by (rule sum_list_as_completed)
  also have "\<dots> = int (length c div 4)" using assms(3) by (rule sum_read_chunks)
  finally have "fst (count_reads fs order r) = Inr (int (length c div 4))"
    using assms(1,2) by (simp add: count_reads_eq)
  moreover have "length (record_generator c) = length c div 4"
    by (simp add: record_generator_eq length_group4)
  moreover have "fst (iterate fs r) = Inr (record_generator c)"
    using assms(1) by (simp add: iterate_eq)
  ultimately show ?thesis by simp
qed

text \<open>The tests' file, two chunks, the second task completing first.\<close>

theorem count_reads_iterate_witness:
  "sample_fs (file_path sample_reader) = Some sample
   \<and> 1 \<le> thread sample_reader \<and> 1 \<le> chunk_size sample_reader
   \<and> mset [1, 0] = mset [0..<length (read_chunks (chunk_size sample_reader) sample)]
   \<and> fst (count_reads sample_fs [1, 0] sample_reader) = Inr 2
   \<and> length (record_generator sample) = 2"
proof -
  have h1: "sample_fs (file_path sample_reader) = Some sample" by code_simp
  have h2: "1 \<le> thread sample_reader" by code_simp
  have h3: "1 \<le> chunk_size sample_reader" by code_simp
  have h4: "mset [1, 0] = mset [0..<length (read_chunks (chunk_size sample_reader) sample)]"
    by code_simp
  have n: "length (record_generator sample) = 2" by code_simp
  from count_reads_iterate[of sample_fs sample_reader sample "[1, 0]", OF h1 h2 h3 h4] h1 h2 h3 h4 n
  show ?thesis by simp
qed

subsection \<open>Trimming\<close>

text \<open>
  C4. (\<^verbatim>\<open>trim_records_cython\<close> modelled from the spec.) On an existing file whose
  records have sequence and quality of equal length, with at least one worker and a
  chunk size of at least one, and for every completion order, \<^verbatim>\<open>trim\<close> returns a
  list that holds, for every record of the input, exactly one record with the same
  header, whose sequence and quality are the substrings of the input's from index
  \<open>five_prime\<close> up to \<open>len - three_prime\<close>; where \<open>five_prime + three_prime\<close> reaches the
  length of the sequence, both are the empty string and no error is raised.
\<close>

theorem trim_substrings:
  assumes "fs (file_path r) = Some c"
    and "1 \<le> thread r"
    and "1 \<le> chunk_size r"
    and "mset order = mset [0..<length (read_chunks (chunk_size r) c)]"
    and "\<forall>x\<in>set (record_generator c). length (seq x) = length (quality x)"
  shows "\<exists>out. fst (trim trim_records_cython fs order r five_prime three_prime) = Inr out
       \<and> mset out =
           {#\<lparr>info = info x,
               seq = substring (seq x) five_prime (length (seq x) - three_prime),
               quality = substring (quality x) five_prime (length (quality x) - three_prime)\<rparr>.
             x \<in># mset (record_generator c)#}
       \<and> (\<forall>x\<in>set (record_generator c). length (seq x) \<le> five_prime + three_prime \<longrightarrow>
             substring (seq x) five_prime (length (seq x) - three_prime) = [] \<and>
             substring (quality x) five_prime (length (quality x) - three_prime) = [])"
proof -
  let ?T = "\<lambda>x. \<lparr>info = info x,
               seq = substring (seq x) five_prime (length (seq x) - three_prime),
               quality = substring (quality x) five_prime (length (quality x) - three_prime)\<rparr>"
  have T: "FASTQRecord_of (trim_raw five_prime three_prime x) = ?T (FASTQRecord_of x)" for x
    by (cases x) (simp add: FASTQRecord_of_def trim_raw_def)
  obtain out where out: "fst (trim trim_records_cython fs order r five_prime three_prime) = Inr out"
    "mset out = mset (map (FASTQRecord_of \<circ> trim_raw five_prime three_prime)
                   (group4 (map rstrip_nl c)))"
    using mset_trim_spec[where fs=fs and r=r, OF assms(1-4)] by blast
  have "map (FASTQRecord_of \<circ> trim_raw five_prime three_prime) (group4 (map rstrip_nl c)) =
      map ?T (record_generator c)"
    by (simp add: record_generator_eq T)
  with out(2) have "mset out = image_mset ?T (mset (record_generator c))" by simp
  moreover have "\<forall>x\<in>set (record_generator c). length (seq x) \<le> five_prime + three_prime \<longrightarrow>
             substring (seq x) five_prime (length (seq x) - three_prime) = [] \<and>
             substring (quality x) five_prime (length (quality x) - three_prime) = []"
    using assms(5) by (auto simp: substring_def)
  ultimately show ?thesis using out(1) by blast
qed

text \<open>The tests' file trimmed by two bases at either end, the second chunk completing first.\<close>

theorem trim_substrings_witness:
  "record_generator sample =
     [\<lparr>info = ''@read1'', seq = ''ACGTACGTACGT'', quality = ''IIIIIIIIIIII''\<rparr>,
      \<lparr>info = ''@read2'', seq = ''TGCAAGCTTGCA'', quality = ''JJJJJJJJJJJJ''\<rparr>]
   \<and> mset [1, 0] = mset [0..<length (read_chunks (chunk_size sample_reader) sample)]
   \<and> (\<exists>out. fst (trim trim_records_cython sample_fs [1, 0] sample_reader 2 2) = Inr out
       \<and> mset out =
           {#\<lparr>info = ''@read1'', seq = ''GTACGTAC'', quality = ''IIIIIIII''\<rparr>,
             \<lparr>info = ''@read2'', seq = ''CAAGCTTG'', quality = ''JJJJJJJJ''\<rparr>#})"
proof -
  have h1: "sample_fs (file_path sample_reader) = Some sample" by code_simp
  have h2: "1 \<le> thread sample_reader" by code_simp
  have h3: "1 \<le> chunk_size sample_reader" by code_simp
  have h4: "mset [1, 0] = mset [0..<length (read_chunks (chunk_size sample_reader) sample)]"
    by code_simp
  have g: "record_generator sample =
      [\<lparr>info = ''@read1'', seq = ''ACGTACGTACGT'', quality = ''IIIIIIIIIIII''\<rparr>,
       \<lparr>info = ''@read2'', seq = ''TGCAAGCTTGCA'', quality = ''JJJJJJJJJJJJ''\<rparr>]"
    by code_simp
  have h5: "\<forall>x\<in>set (record_generator sample). length (seq x) = length (quality x)"
    by (simp add: g)
  from trim_substrings[of sample_fs sample_reader sample "[1, 0]" 2 2, OF h1 h2 h3 h4 h5]
  obtain out where "fst (trim trim_records_cython sample_fs [1, 0] sample_reader 2 2) = Inr out"
    "mset out =
           {#\<lparr>info = info x,
               seq = substring (seq x) 2 (length (seq x) - 2),
               quality = substring (quality x) 2 (length (quality x) - 2)\<rparr>.
             x \<in># mset (record_generator sample)#}" by blast
  then have "fst (trim trim_records_cython sample_fs [1, 0] sample_reader 2 2) = Inr out
       \<and> mset out =
           {#\<lparr>info = ''@read1'', seq = ''GTACGTAC'', quality = ''IIIIIIII''\<rparr>,
             \<lparr>info = ''@read2'', seq = ''CAAGCTTG'', quality = ''JJJJJJJJ''\<rparr>#}"
    by (simp add: g substring_def)
  with g h4 show ?thesis by blast
qed

subsection \<open>Quality filter\<close>

text \<open>
  C5 fails on the code in its order (\<^verbatim>\<open>filter_quality_cython\<close> modelled from the
  spec). Both records of the tests' file pass the threshold 30; when the second chunk's
  task is yielded first, \<^verbatim>\<open>filter_quality(30)\<close> returns them in reverse of the input
  order.
\<close>

theorem filter_quality_completion_order:
  "mset [1, 0] = mset [0..<length (read_chunks (chunk_size sample_reader) sample)]
   \<and> fst (iterate sample_fs sample_reader) =
       Inr [\<lparr>info = ''@read1'', seq = ''ACGTACGTACGT'', quality = ''IIIIIIIIIIII''\<rparr>,
            \<lparr>info = ''@read2'', seq = ''TGCAAGCTTGCA'', quality = ''JJJJJJJJJJJJ''\<rparr>]
   \<and> fst (filter_quality filter_quality_cython sample_fs [1, 0] sample_reader 30) =
       Inr [\<lparr>info = ''@read2'', seq = ''TGCAAGCTTGCA'', quality = ''JJJJJJJJJJJJ''\<rparr>,
            \<lparr>info = ''@read1'', seq = ''ACGTACGTACGT'', quality = ''IIIIIIIIIIII''\<rparr>]"
  by code_simp

subsection \<open>Extraction\<close>

text \<open>
  C6 fails on the code in its order. With the save flag set, \<^verbatim>\<open>extract(2, 6)\<close> on the
  tests' file returns None and writes the column \<^verbatim>\<open>extracted\<close> to
  \<^verbatim>\<open>extracted.parquet\<close>; when the second chunk's task is yielded first, the column
  holds the substrings in reverse of the record order.
\<close>

theorem extract_saved_completion_order:
  "mset [1, 0] = mset [0..<length (read_chunks (chunk_size sample_reader) sample)]
   \<and> fst (extract_reads sample_fs Map.empty [1, 0] sample_reader 2 6 True ''extracted'') = Inr None
   \<and> snd (snd (extract_reads sample_fs Map.empty [1, 0] sample_reader 2 6 True ''extracted''))
         ''extracted.parquet'' =
       Some [(''extracted'', [''CAAG'', ''GTAC''])]"
  by code_simp

subsection \<open>Repeated calls\<close>

text \<open>
  C7, as stated, fails for iteration: \<^verbatim>\<open>__iter__\<close> resets the file before the
  generator runs, but nothing reopens it afterwards, so a drained iteration of the
  tests' file leaves the handle at the end of the file, not at its start.
\<close>

theorem iteration_not_restored:
  "sample_fs (file_path sample_reader) = Some sample
   \<and> fst (iterate sample_fs sample_reader) = Inr (record_generator sample)
   \<and> reader_file (snd (iterate sample_fs sample_reader)) = Some (Open [])
   \<and> reader_file (snd (iterate sample_fs sample_reader)) \<noteq> Some (Open sample)"
  by code_simp

text \<open>
  C7, amended. Every operation begins by reopening the file, so its result does not
  depend on the handle it finds: the result is the same for every handle state on
  entry, and every operation changes nothing of the reader but the handle. Hence the
  same operation called twice in a row, or after any other operation, gives the same
  result (for the same completion order of the tasks). \<^verbatim>\<open>count_reads\<close>, \<^verbatim>\<open>trim\<close>,
  \<^verbatim>\<open>filter_quality\<close> and \<^verbatim>\<open>extract\<close>, when they return, leave a fresh handle at the
  start of the file; \<^verbatim>\<open>__iter__\<close> returns with the handle at the start, and a drained
  iteration leaves it at the end of the file.
\<close>

theorem repeated_calls:
  fixes r :: FASTQReader
  shows "(fst (iterate fs (snd (iterate fs r))) = fst (iterate fs r)
      \<and> fst (count_reads fs order (snd (count_reads fs order r))) = fst (count_reads fs order r)
      \<and> fst (trim tr fs order (snd (trim tr fs order r a b)) a b) = fst (trim tr fs order r a b)
      \<and> fst (filter_quality fq fs order (snd (filter_quality fq fs order r t)) t) =
          fst (filter_quality fq fs order r t)
      \<and> fst (extract_reads fs snk' order
               (fst (snd (extract_reads fs snk order r start stop save prefix)))
               start stop save prefix) =
          fst (extract_reads fs snk order r start stop save prefix))
    \<and> (\<forall>h. fst (iterate fs (r\<lparr>reader_file := h\<rparr>)) = fst (iterate fs r)
          \<and> fst (count_reads fs order (r\<lparr>reader_file := h\<rparr>)) = fst (count_reads fs order r)
          \<and> fst (trim tr fs order (r\<lparr>reader_file := h\<rparr>) a b) = fst (trim tr fs order r a b)
          \<and> fst (filter_quality fq fs order (r\<lparr>reader_file := h\<rparr>) t) =
              fst (filter_quality fq fs order r t)
          \<and> fst (extract_reads fs snk' order (r\<lparr>reader_file := h\<rparr>) start stop save prefix) =
              fst (extract_reads fs snk order r start stop save prefix))
    \<and> ((\<exists>h. snd (iterate fs r) = r\<lparr>reader_file := h\<rparr>)
      \<and> (\<exists>h. snd (count_reads fs order r) = r\<lparr>reader_file := h\<rparr>)
      \<and> (\<exists>h. snd (trim tr fs order r a b) = r\<lparr>reader_file := h\<rparr>)
      \<and> (\<exists>h. snd (filter_quality fq fs order r t) = r\<lparr>reader_file := h\<rparr>)
      \<and> (\<exists>h. fst (snd (extract_reads fs snk order r start stop save prefix)) =
               r\<lparr>reader_file := h\<rparr>))
    \<and> ((\<forall>v. fst (count_reads fs order r) = Inr v \<longrightarrow>
            (\<exists>c. fs (file_path r) = Some c \<and>
               reader_file (snd (count_reads fs order r)) = Some (Open c)))
      \<and> (\<forall>v. fst (trim tr fs order r a b) = Inr v \<longrightarrow>
            (\<exists>c. fs (file_path r) = Some c \<and>
               reader_file (snd (trim tr fs order r a b)) = Some (Open c)))
      \<and> (\<forall>v. fst (filter_quality fq fs order r t) = Inr v \<longrightarrow>
            (\<exists>c. fs (file_path r) = Some c \<and>
               reader_file (snd (filter_quality fq fs order r t)) = Some (Open c)))
      \<and> (\<forall>v. fst (extract_reads fs snk order r start stop save prefix) = Inr v \<longrightarrow>
            (\<exists>c. fs (file_path r) = Some c \<and>
               reader_file (fst (snd (extract_reads fs snk order r start stop save prefix))) =
               Some (Open c)))
      \<and> (\<forall>c. fst (iter_reader fs r) = Inr c \<longrightarrow>
            fs (file_path r) = Some c \<and> reader_file (snd (iter_reader fs r)) = Some (Open c))
      \<and> (\<forall>v. fst (iterate fs r) = Inr v \<longrightarrow>
            reader_file (snd (iterate fs r)) = Some (Open [])))"
proof -
  have twice: "fst (iterate fs (snd (iterate fs r))) = fst (iterate fs r)
      \<and> fst (count_reads fs order (snd (count_reads fs order r))) = fst (count_reads fs order r)
      \<and> fst (trim tr fs order (snd (trim tr fs order r a b)) a b) = fst (trim tr fs order r a b)
      \<and> fst (filter_quality fq fs order (snd (filter_quality fq fs order r t)) t) =
          fst (filter_quality fq fs order r t)
      \<and> fst (extract_reads fs snk' order
               (fst (snd (extract_reads fs snk order r start stop save prefix)))
               start stop save prefix) =
          fst (extract_reads fs snk order r start stop save prefix)"
  proof (intro conjI)
    obtain h where "snd (iterate fs r) = r\<lparr>reader_file := h\<rparr>"
      using iterate_frame by blast
    then show "fst (iterate fs (snd (iterate fs r))) = fst (iterate fs r)"
      by (simp only: iterate_entry)
  next
    obtain h where "snd (count_reads fs order r) = r\<lparr>reader_file := h\<rparr>"
      using count_reads_frame by blast
    then show "fst (count_reads fs order (snd (count_reads fs order r))) =
        fst (count_reads fs order r)"
      by (simp only: count_reads_entry)
  next
    obtain h where "snd (trim tr fs order r a b) = r\<lparr>reader_file := h\<rparr>"
      using trim_frame by blast
    then show "fst (trim tr fs order (snd (trim tr fs order r a b)) a b) =
        fst (trim tr fs order r a b)"
      by (simp only: trim_entry)
  next
    obtain h where "snd (filter_quality fq fs order r t) = r\<lparr>reader_file := h\<rparr>"
      using filter_quality_frame by blast
    then show "fst (filter_quality fq fs order (snd (filter_quality fq fs order r t)) t) =
        fst (filter_quality fq fs order r t)"
      by (simp only: filter_quality_entry)
  next
    obtain h where "fst (snd (extract_reads fs snk order r start stop save prefix)) =
        r\<lparr>reader_file := h\<rparr>"
      using extract_reads_frame by blast
    then show "fst (extract_reads fs snk' order
               (fst (snd (extract_reads fs snk order r start stop save prefix)))
               start stop save prefix) =
          fst (extract_reads fs snk order r start stop save prefix)"
      by (simp only: extract_reads_entry[where snk'=snk' and snk=snk])
  qed
  have entry: "\<forall>h. fst (iterate fs (r\<lparr>reader_file := h\<rparr>)) = fst (iterate fs r)
          \<and> fst (count_reads fs order (r\<lparr>reader_file := h\<rparr>)) = fst (count_reads fs order r)
          \<and> fst (trim tr fs order (r\<lparr>reader_file := h\<rparr>) a b) = fst (trim tr fs order r a b)
          \<and> fst (filter_quality fq fs order (r\<lparr>reader_file := h\<rparr>) t) =
              fst (filter_quality fq fs order r t)
          \<and> fst (extract_reads fs snk' order (r\<lparr>reader_file := h\<rparr>) start stop save prefix) =
              fst (extract_reads fs snk order r start stop save prefix)"
    by (intro allI conjI iterate_entry count_reads_entry trim_entry filter_quality_entry
        extract_reads_entry)
  have frame: "(\<exists>h. snd (iterate fs r) = r\<lparr>reader_file := h\<rparr>)
      \<and> (\<exists>h. snd (count_reads fs order r) = r\<lparr>reader_file := h\<rparr>)
      \<and> (\<exists>h. snd (trim tr fs order r a b) = r\<lparr>reader_file := h\<rparr>)
      \<and> (\<exists>h. snd (filter_quality fq fs order r t) = r\<lparr>reader_file := h\<rparr>)
      \<and> (\<exists>h. fst (snd (extract_reads fs snk order r start stop save prefix)) =
               r\<lparr>reader_file := h\<rparr>)"
    by (intro conjI iterate_frame count_reads_frame trim_frame filter_quality_frame
        extract_reads_frame)
  have restore: "(\<forall>v. fst (count_reads fs order r) = Inr v \<longrightarrow>
            (\<exists>c. fs (file_path r) = Some c \<and>
               reader_file (snd (count_reads fs order r)) = Some (Open c)))
      \<and> (\<forall>v. fst (trim tr fs order r a b) = Inr v \<longrightarrow>
            (\<exists>c. fs (file_path r) = Some c \<and>
               reader_file (snd (trim tr fs order r a b)) = Some (Open c)))
      \<and> (\<forall>v. fst (filter_quality fq fs order r t) = Inr v \<longrightarrow>
            (\<exists>c. fs (file_path r) = Some c \<and>
               reader_file (snd (filter_quality fq fs order r t)) = Some (Open c)))
      \<and> (\<forall>v. fst (extract_reads fs snk order r start stop save prefix) = Inr v \<longrightarrow>
            (\<exists>c. fs (file_path r) = Some c \<and>
               reader_file (fst (snd (extract_reads fs snk order r start stop save prefix))) =
               Some (Open c)))
      \<and> (\<forall>c. fst (iter_reader fs r) = Inr c \<longrightarrow>
            fs (file_path r) = Some c \<and> reader_file (snd (iter_reader fs r)) = Some (Open c))
      \<and> (\<forall>v. fst (iterate fs r) = Inr v \<longrightarrow>
            reader_file (snd (iterate fs r)) = Some (Open []))"
    by (intro conjI allI impI count_reads_restores trim_restores filter_quality_restores
        extract_reads_restores iterate_end_of_file; (erule iter_reader_start[THEN conjunct1]
        | erule iter_reader_start[THEN conjunct2] | assumption))
  show ?thesis
    by (rule conjI, rule twice, rule conjI, rule entry, rule conjI, rule frame, rule restore)
qed

text \<open>
  The tests' reader: counting twice gives 2 both times, the second call starting from
  the handle the first one left, which is a fresh handle on the whole file.
\<close>

theorem repeated_calls_witness:
  "fst (count_reads sample_fs [1, 0] sample_reader) = Inr 2
   \<and> fst (count_reads sample_fs [1, 0] (snd (count_reads sample_fs [1, 0] sample_reader))) = Inr 2
   \<and> (\<exists>c. sample_fs (file_path sample_reader) = Some c \<and>
         reader_file (snd (count_reads sample_fs [1, 0] sample_reader)) = Some (Open c))"
proof -
  have v: "fst (count_reads sample_fs [1, 0] sample_reader) = Inr 2" by code_simp
  note rc = repeated_calls[of sample_fs sample_reader "[1, 0]"]
  have "fst (count_reads sample_fs [1, 0] (snd (count_reads sample_fs [1, 0] sample_reader))) =
      fst (count_reads sample_fs [1, 0] sample_reader)"
    by (rule rc[THEN conjunct1, THEN conjunct2, THEN conjunct1])
  moreover have "\<forall>v. fst (count_reads sample_fs [1, 0] sample_reader) = Inr v \<longrightarrow>
      (\<exists>c. sample_fs (file_path sample_reader) = Some c \<and>
         reader_file (snd (count_reads sample_fs [1, 0] sample_reader)) = Some (Open c))"
    by (rule rc[THEN conjunct2, THEN conjunct2, THEN conjunct2, THEN conjunct1])
  ultimately show ?thesis using v by simp
qed

subsection \<open>Length of trimmed records\<close>

text \<open>
  C8. (\<^verbatim>\<open>trim_records_cython\<close> modelled from the spec.) On an existing file whose
  records have sequence and quality of equal length, with at least one worker and for
  every completion order, every record that \<^verbatim>\<open>trim\<close> returns has a sequence and a
  quality of equal length, whatever the two trimming lengths.
\<close>

theorem trim_preserves_lengths:
  assumes "fs (file_path r) = Some c"
    and "1 \<le> thread r"
    and "mset order = mset [0..<length (read_chunks (chunk_size r) c)]"
    and "\<forall>x\<in>set (record_generator c). length (seq x) = length (quality x)"
  shows "\<exists>out. fst (trim trim_records_cython fs order r a b) = Inr out
       \<and> (\<forall>y\<in>set out. length (seq y) = length (quality y))"
proof (cases "1 \<le> chunk_size r")
  case True
  obtain out where out: "fst (trim trim_records_cython fs order r a b) = Inr out"
    "mset out = mset (map (FASTQRecord_of \<circ> trim_raw a b) (group4 (map rstrip_nl c)))"
    using mset_trim_spec[where fs=fs and r=r, OF assms(1,2) True assms(3)] by blast
  from out(2) have "set out = set (map (FASTQRecord_of \<circ> trim_raw a b) (group4 (map rstrip_nl c)))"
    by (rule mset_eq_setD)
  then have s: "set out = (FASTQRecord_of \<circ> trim_raw a b) ` set (group4 (map rstrip_nl c))"
    by simp
  have "length (seq y) = length (quality y)" if "y \<in> set out" for y
  proof -
    from that s obtain x where x: "x \<in> set (group4 (map rstrip_nl c))"
      "y = FASTQRecord_of (trim_raw a b x)" by auto
    then have "FASTQRecord_of x \<in> set (record_generator c)"
      by (simp add: record_generator_eq)
    with assms(4) have "length (seq (FASTQRecord_of x)) = length (quality (FASTQRecord_of x))"
      by blast
    with x(2) show ?thesis
      by (cases x) (simp add: FASTQRecord_of_def trim_raw_def length_substring)
  qed
  with out(1) show ?thesis by blast
next
  case False
  then have e: "read_chunks (chunk_size r) c = []" by (simp add: read_chunks_nonpos)
  with assms(3) have "order = []" by simp
  with e trim_spec_result[where fs=fs and r=r, OF assms(1-3), of a b] show ?thesis
    by (simp add: as_completed_def)
qed

text \<open>
  The tests' file trimmed by 3 and 20 bases, more than its sequences hold: both records
  come back with an empty sequence and an empty quality.
\<close>

theorem trim_preserves_lengths_witness:
  "record_generator sample =
     [\<lparr>info = ''@read1'', seq = ''ACGTACGTACGT'', quality = ''IIIIIIIIIIII''\<rparr>,
      \<lparr>info = ''@read2'', seq = ''TGCAAGCTTGCA'', quality = ''JJJJJJJJJJJJ''\<rparr>]
   \<and> fst (trim trim_records_cython sample_fs [0, 1] sample_reader 3 20) =
       Inr [\<lparr>info = ''@read1'', seq = [], quality = []\<rparr>,
            \<lparr>info = ''@read2'', seq = [], quality = []\<rparr>]
   \<and> (\<exists>out. fst (trim trim_records_cython sample_fs [0, 1] sample_reader 3 20) = Inr out
       \<and> list_all (\<lambda>y. length (seq y) = length (quality y)) out)"
proof -
  have h1: "sample_fs (file_path sample_reader) = Some sample" by code_simp
  have h2: "1 \<le> thread sample_reader" by code_simp
  have h4: "mset [0, 1] = mset [0..<length (read_chunks (chunk_size sample_reader) sample)]"
    by code_simp
  have g: "record_generator sample =
      [\<lparr>info = ''@read1'', seq = ''ACGTACGTACGT'', quality = ''IIIIIIIIIIII''\<rparr>,
       \<lparr>info = ''@read2'', seq = ''TGCAAGCTTGCA'', quality = ''JJJJJJJJJJJJ''\<rparr>]"
    by code_simp
  have h5: "\<forall>x\<in>set (record_generator sample). length (seq x) = length (quality x)"
    by (simp add: g)
  have v: "fst (trim trim_records_cython sample_fs [0, 1] sample_reader 3 20) =
       Inr [\<lparr>info = ''@read1'', seq = [], quality = []\<rparr>,
            \<lparr>info = ''@read2'', seq = [], quality = []\<rparr>]"
    by code_simp
  from trim_preserves_lengths[of sample_fs sample_reader sample "[0, 1]" 3 20, OF h1 h2 h4 h5]
  have "\<exists>out. fst (trim trim_records_cython sample_fs [0, 1] sample_reader 3 20) = Inr out
       \<and> list_all (\<lambda>y. length (seq y) = length (quality y)) out"
    by (simp add: list_all_iff)
  with g v show ?thesis by blast
qed

subsection \<open>Failing tasks\<close>

text \<open>
  C9 fails on the code in its order (\<^verbatim>\<open>trim_records_cython\<close> modelled from the
  spec). No task fails on the tests' file, and \<^verbatim>\<open>trim(2, 2)\<close> returns every record;
  but when the second chunk's task is yielded first, the complete result is in reverse
  of the record order.
\<close>

theorem trim_complete_but_unordered:
  "mset [1, 0] = mset [0..<length (read_chunks (chunk_size sample_reader) sample)]
   \<and> fst (trim trim_records_cython sample_fs [1, 0] sample_reader 2 2) =
       Inr [\<lparr>info = ''@read2'', seq = ''CAAGCTTG'', quality = ''JJJJJJJJ''\<rparr>,
            \<lparr>info = ''@read1'', seq = ''GTACGTAC'', quality = ''IIIIIIII''\<rparr>]"
  by code_simp

subsection \<open>Chunk boundaries\<close>

text \<open>
  C10. With a chunk size of at least one record, the chunks returned by \<open>n\<close> successive
  calls of \<^verbatim>\<open>load_chunk\<close> on one handle are these: chunk \<open>i\<close> holds the stripped
  lines of the file from line offset \<open>4 * (i * chunk_size)\<close> on, at most
  \<open>chunk_size * 4\<close> of them, so every chunk starts on a record boundary and no 4-line
  group straddles two chunks; once a chunk is shorter than \<open>chunk_size * 4\<close> lines,
  every later call returns no line; every chunk that is followed by a non-empty chunk
  holds exactly \<open>chunk_size * 4\<close> lines; and grouping each chunk at offsets 0, 4, 8, ...
  and concatenating gives the grouping of the lines read so far, which for enough
  calls is the sequence of records that sequential iteration yields for the file.
\<close>

theorem load_chunk_sequence:
  assumes cs: "1 \<le> cs"
  shows "(\<forall>i<n. load_chunks n fh cs ! i =
            map rstrip_nl (take (nat (cs * 4)) (drop (4 * (i * nat cs)) fh)))
       \<and> (\<forall>i j. i < j \<and> j < n \<and> length (load_chunks n fh cs ! i) < nat (cs * 4)
            \<longrightarrow> load_chunks n fh cs ! j = [])
       \<and> (\<forall>i. Suc i < n \<and> load_chunks n fh cs ! Suc i \<noteq> []
            \<longrightarrow> length (load_chunks n fh cs ! i) = nat (cs * 4))
       \<and> concat (map group_records (load_chunks n fh cs)) =
            group_records (map rstrip_nl (take (n * nat (cs * 4)) fh))
       \<and> (length fh \<le> n * nat (cs * 4) \<longrightarrow>
            map FASTQRecord_of (concat (map group_records (load_chunks n fh cs))) =
            record_generator fh)"
proof -
  let ?k = "nat (cs * 4)"
  have k: "?k = 4 * nat cs" using cs by (simp add: nat_mult_distrib)
  have nth: "load_chunks n fh cs ! i = map rstrip_nl (take ?k (drop (i * ?k) fh))" if "i < n" for i
    using that by (rule load_chunks_nth)
  have a: "\<forall>i<n. load_chunks n fh cs ! i =
      map rstrip_nl (take ?k (drop (4 * (i * nat cs)) fh))"
  proof (intro allI impI)
    fix i assume "i < n"
    have "i * ?k = 4 * (i * nat cs)" by (simp add: k)
    with nth[OF \<open>i < n\<close>] show "load_chunks n fh cs ! i =
      map rstrip_nl (take ?k (drop (4 * (i * nat cs)) fh))" by simp
  qed
  have b: "\<forall>i j. i < j \<and> j < n \<and> length (load_chunks n fh cs ! i) < ?k
      \<longrightarrow> load_chunks n fh cs ! j = []"
  proof (intro allI impI)
    fix i j assume h: "i < j \<and> j < n \<and> length (load_chunks n fh cs ! i) < ?k"
    then have "i < n" by simp
    from h nth[OF this] have "length fh - i * ?k < ?k" by (simp add: min_def split: if_splits)
    then have "length fh < Suc i * ?k" by simp
    also from h have "Suc i * ?k \<le> j * ?k" by (intro mult_le_mono1) simp
    finally have "drop (j * ?k) fh = []" by simp
    with h nth[of j] show "load_chunks n fh cs ! j = []" by simp
  qed
  have c: "\<forall>i. Suc i < n \<and> load_chunks n fh cs ! Suc i \<noteq> []
      \<longrightarrow> length (load_chunks n fh cs ! i) = ?k"
  proof (intro allI impI)
    fix i assume h: "Suc i < n \<and> load_chunks n fh cs ! Suc i \<noteq> []"
    then have "i < n" by simp
    from h nth[of "Suc i"] have "Suc i * ?k < length fh" by simp
    then have "?k \<le> length fh - i * ?k" by simp
    with nth[OF \<open>i < n\<close>] show "length (load_chunks n fh cs ! i) = ?k" by (simp add: min_def)
  qed
  have d: "concat (map group_records (load_chunks n fh cs)) =
      group_records (map rstrip_nl (take (n * ?k) fh))"
    using group_load_chunks[OF cs, of n fh] by (simp add: group_records_eq[abs_def])
  have e: "length fh \<le> n * ?k \<longrightarrow>
      map FASTQRecord_of (concat (map group_records (load_chunks n fh cs))) = record_generator fh"
    by (simp add: d record_generator_eq group_records_eq)
  from a b c d e show ?thesis by blast
qed

text \<open>The chunks of the cut-off file, one record per chunk.\<close>

theorem load_chunk_sequence_witness:
  "load_chunks 3 sample6 1 =
     [[''@read1'', ''ACGT'', ''+'', ''IIII''], [''@read2'', ''TTTT''], []]
   \<and> length (load_chunks 3 sample6 1 ! 0) = nat (1 * 4)
   \<and> load_chunks 3 sample6 1 ! 2 = []
   \<and> map FASTQRecord_of (concat (map group_records (load_chunks 3 sample6 1))) =
       record_generator sample6"
proof -
  have h: "(1::int) \<le> 1" by simp
  have l: "length sample6 \<le> 3 * nat (1 * 4)" by (simp add: sample6_def)
  have v: "load_chunks 3 sample6 1 =
       [[''@read1'', ''ACGT'', ''+'', ''IIII''], [''@read2'', ''TTTT''], []]"
    by code_simp
  note seq = load_chunk_sequence[OF h, of 3 sample6]
  from seq have short: "\<forall>i j. i < j \<and> j < 3 \<and> length (load_chunks 3 sample6 1 ! i) < nat (1 * 4)
      \<longrightarrow> load_chunks 3 sample6 1 ! j = []"
    by blast
  have "(1::nat) < 2 \<and> (2::nat) < 3 \<and> length (load_chunks 3 sample6 1 ! 1) < nat (1 * 4)"
    by (simp add: v)
  with short have last: "load_chunks 3 sample6 1 ! 2 = []" by blast
  from seq have "\<forall>i. Suc i < 3 \<and> load_chunks 3 sample6 1 ! Suc i \<noteq> []
      \<longrightarrow> length (load_chunks 3 sample6 1 ! i) = nat (1 * 4)"
    by blast
  moreover have "Suc 0 < 3 \<and> load_chunks 3 sample6 1 ! Suc 0 \<noteq> []" by (simp add: v)
  ultimately have full: "length (load_chunks 3 sample6 1 ! 0) = nat (1 * 4)" by blast
  from seq l have "map FASTQRecord_of (concat (map group_records (load_chunks 3 sample6 1))) =
       record_generator sample6"
    by blast
  with v full last show ?thesis by blast
qed

end
